theory Spec2Isabelle
  imports Main "HOL-Library.Word"
begin

section \<open>The tokenizer of srctools (\<^verbatim>\<open>src/srctools/_tokenizer.pyx\<close>)\<close>

text \<open>
  The Cython class \<^verbatim>\<open>Tokenizer\<close> is embedded with explicit state passing: every method
  takes the object's fields as a record and returns its result together with the updated
  record. A raised exception is the \<open>Inl\<close> branch of the result, and the record that comes
  with it holds the fields as the exception left them.

  Characters are Isabelle's \<open>char\<close>; the scanner only ever compares a character with
  ASCII constants. The fields \<^verbatim>\<open>char_index\<close> and \<^verbatim>\<open>line_num\<close> are C \<^verbatim>\<open>int\<close>s: they are
  32-bit words here, read as signed numbers, and adding one to the largest gives the
  smallest. Because the index wraps around, a loop of the scanner can run forever on a
  chunk of \<open>2^31\<close> characters or more; the loops are therefore partial functions, and
  \<open>None\<close> stands for a call that does not return.
\<close>

type_synonym c_int = "32 word"

subsection \<open>Token kinds\<close>

datatype Token =
    EOF | STRING | NEWLINE | PAREN_ARGS | BRACE_OPEN | BRACE_CLOSE
  | PROP_FLAG | BRACK_OPEN | BRACK_CLOSE | COLON | EQUALS | PLUS

text \<open>The \<^verbatim>\<open>name\<close> of an enumeration member and its \<^verbatim>\<open>str()\<close>.\<close>

fun Token_name :: "Token \<Rightarrow> string" where
  "Token_name EOF = ''EOF''"
| "Token_name STRING = ''STRING''"
| "Token_name NEWLINE = ''NEWLINE''"
| "Token_name PAREN_ARGS = ''PAREN_ARGS''"
| "Token_name BRACE_OPEN = ''BRACE_OPEN''"
| "Token_name BRACE_CLOSE = ''BRACE_CLOSE''"
| "Token_name PROP_FLAG = ''PROP_FLAG''"
| "Token_name BRACK_OPEN = ''BRACK_OPEN''"
| "Token_name BRACK_CLOSE = ''BRACK_CLOSE''"
| "Token_name COLON = ''COLON''"
| "Token_name EQUALS = ''EQUALS''"
| "Token_name PLUS = ''PLUS''"

definition Token_str :: "Token \<Rightarrow> string" where
  "Token_str t = ''Token.'' @ Token_name t"

text \<open>A token is the pair of a kind and a value; the value of EOF is \<^verbatim>\<open>None\<close>.\<close>

type_synonym token = "Token \<times> string option"

subsection \<open>Characters\<close>

abbreviation newline :: char where "newline \<equiv> CHR 0x0A"
abbreviation tab :: char where "tab \<equiv> CHR 0x09"
abbreviation dquote :: char where "dquote \<equiv> CHR 0x22"
abbreviation squote :: char where "squote \<equiv> CHR 0x27"
abbreviation backslash :: char where "backslash \<equiv> CHR 0x5C"

text \<open>\<^verbatim>\<open>DEF BARE_DISALLOWED = '"\'{}<>();:[]\n\t '\<close>\<close>

definition BARE_DISALLOWED :: string where
  "BARE_DISALLOWED =
     [dquote, squote, CHR ''{'', CHR ''}'', CHR ''<'', CHR ''>'', CHR ''('', CHR '')'',
      CHR '';'', CHR '':'', CHR ''['', CHR '']'', newline, tab, CHR '' '']"

subsection \<open>Exceptions\<close>

text \<open>
  Modelled from the spec: the class \<^verbatim>\<open>TokenSyntaxError\<close> is imported from
  \<^verbatim>\<open>srctools.tokenizer\<close>, which is not part of the sources at hand. An error class is
  the base class itself, a subclass of it, or a class that is unrelated to it; an
  instance is built from a message, a file name and a line number.
\<close>

datatype error_class = TokenSyntaxError | Subclass string | Unrelated string

fun issubclass_TokenSyntaxError :: "error_class \<Rightarrow> bool" where
  "issubclass_TokenSyntaxError TokenSyntaxError = True"
| "issubclass_TokenSyntaxError (Subclass n) = True"
| "issubclass_TokenSyntaxError (Unrelated n) = False"

text \<open>
  The exceptions that can leave the tokenizer: an instance of the configured error
  class (message, file name, line number), and the built-in \<^verbatim>\<open>ValueError\<close>,
  \<^verbatim>\<open>TypeError\<close> and \<^verbatim>\<open>IndexError\<close>, which carry a message only.
\<close>

datatype exn =
    SyntaxErr error_class string string int
  | ValueError string
  | TypeError string
  | IndexError string

subsection \<open>The object\<close>

text \<open>
  What the chunk iterator yields: a string, \<^verbatim>\<open>None\<close>, or some other object, which is
  given by the name of its type. The iterator is the list of the chunks it has not
  yielded yet.
\<close>

datatype chunk = Str string | NoneChunk | NonStr string

record tokenizer =
  cur_chunk :: string
  chunk_iter :: "chunk list"
  char_index :: c_int
  error_type :: error_class
  filename :: string
  line_num :: c_int
  string_bracket :: bool

text \<open>
  The \<^verbatim>\<open>data\<close> argument of the constructor: a string, or an iterable of chunks that may
  have a \<^verbatim>\<open>name\<close> attribute (a file object has one).
\<close>

datatype data = StrData string | IterData "string option" "chunk list"

text \<open>
  \<^verbatim>\<open>__init__(self, data, filename=None, error=None, string_bracket=False)\<close>.
  A \<^verbatim>\<open>filename\<close> that is \<^verbatim>\<open>None\<close> or empty is false.
\<close>

definition Tokenizer_init ::
  "data \<Rightarrow> string option \<Rightarrow> error_class option \<Rightarrow> bool \<Rightarrow> exn + tokenizer" where
  "Tokenizer_init dat fname error sb =
     (let (cur, it) = (case dat of StrData d \<Rightarrow> (d, []) | IterData nm cs \<Rightarrow> ([], cs));
          fn = (case fname of
                  Some f \<Rightarrow> if f \<noteq> [] then f
                            else (case dat of IterData (Some nm) cs \<Rightarrow> nm | _ \<Rightarrow> [])
                | None \<Rightarrow> (case dat of IterData (Some nm) cs \<Rightarrow> nm | _ \<Rightarrow> []))
      in case error of
           None \<Rightarrow>
             Inr \<lparr>cur_chunk = cur, chunk_iter = it, char_index = - 1,
                  error_type = TokenSyntaxError, filename = fn, line_num = 1,
                  string_bracket = sb\<rparr>
         | Some e \<Rightarrow>
             if \<not> issubclass_TokenSyntaxError e
             then Inl (TypeError (''Invalid error instance '' @ [dquote] @ ''type'' @ [dquote] @ ''!''))
             else Inr \<lparr>cur_chunk = cur, chunk_iter = it, char_index = - 1,
                       error_type = e, filename = fn, line_num = 1,
                       string_bracket = sb\<rparr>)"

text \<open>
  \<^verbatim>\<open>_error(self, message)\<close> and \<^verbatim>\<open>error(self, message)\<close> for a token kind. The line
  number goes into the exception as a Python integer.
\<close>

definition mk_error :: "tokenizer \<Rightarrow> string \<Rightarrow> exn" where
  "mk_error s message =
     SyntaxErr (error_type s) message (filename s) (sint (line_num s))"

definition error_Token :: "tokenizer \<Rightarrow> Token \<Rightarrow> exn" where
  "error_Token s t = mk_error s (''Unexpected token '' @ Token_name t @ ''!'')"

subsection \<open>The character source\<close>

text \<open>
  \<^verbatim>\<open>self.cur_chunk[self.char_index]\<close>, with Python's wrap-around of an index below
  zero; outside the string it raises.
\<close>

definition getitem :: "string \<Rightarrow> int \<Rightarrow> exn + char" where
  "getitem text i =
     (if 0 \<le> i \<and> i < int (length text) then Inr (text ! nat i)
      else if i < 0 \<and> 0 \<le> i + int (length text) then Inr (text ! nat (i + int (length text)))
      else Inl (IndexError ''string index out of range''))"

text \<open>
  The local variable \<^verbatim>\<open>chunk\<close> is declared \<^verbatim>\<open>cdef str\<close>: assigning it an object that is
  neither a string nor \<^verbatim>\<open>None\<close> raises \<^verbatim>\<open>TypeError\<close>, with the name of the object's
  type cut to 200 characters in the message.
\<close>

definition not_a_str :: "string \<Rightarrow> exn" where
  "not_a_str tp_name = TypeError (''Expected unicode, got '' @ take 200 tp_name)"

text \<open>
  The loop \<^verbatim>\<open>for chunk in self.chunk_iter\<close> that skips empty chunks. \<^verbatim>\<open>None\<close> passes the
  assignment, and \<^verbatim>\<open>len(chunk)\<close> raises for it. The result is the first non-empty
  chunk, if there is one, and the iterator that is left.
\<close>

fun skip_empty_chunks :: "chunk list \<Rightarrow> (exn + string option) \<times> chunk list" where
  "skip_empty_chunks [] = (Inr None, [])"
| "skip_empty_chunks (Str c # rest) =
     (if length c > 0 then (Inr (Some c), rest) else skip_empty_chunks rest)"
| "skip_empty_chunks (NoneChunk # rest) =
     (Inl (TypeError ''object of type 'NoneType' has no len()''), rest)"
| "skip_empty_chunks (NonStr tp_name # rest) = (Inl (not_a_str tp_name), rest)"

text \<open>
  \<^verbatim>\<open>_next_char(self)\<close>: the next character, or \<open>None\<close> for the source's \<^verbatim>\<open>-1\<close>. The
  assignment \<^verbatim>\<open>chunk = next(self.chunk_iter, None)\<close> raises for an object that is not a
  string before the \<^verbatim>\<open>isinstance\<close> test is reached, so that the \<^verbatim>\<open>ValueError\<close> of the
  source is never raised.
\<close>

definition next_char :: "tokenizer \<Rightarrow> (exn + char option) \<times> tokenizer" where
  "next_char s =
     (let s1 = s\<lparr>char_index := char_index s + 1\<rparr> in
      if sint (char_index s1) < int (length (cur_chunk s1)) then
        (case getitem (cur_chunk s1) (sint (char_index s1)) of
           Inl e \<Rightarrow> (Inl e, s1)
         | Inr c \<Rightarrow> (Inr (Some c), s1))
      else
        (case chunk_iter s1 of
           [] \<Rightarrow> (Inr None, s1)
         | NoneChunk # rest \<Rightarrow> (Inr None, s1\<lparr>chunk_iter := rest\<rparr>)
         | NonStr tp_name # rest \<Rightarrow> (Inl (not_a_str tp_name), s1\<lparr>chunk_iter := rest\<rparr>)
         | Str c # rest \<Rightarrow>
             (let s2 = s1\<lparr>chunk_iter := rest, cur_chunk := c, char_index := 0\<rparr> in
              if length c > 0 then (Inr (Some (hd c)), s2)
              else
                (case skip_empty_chunks rest of
                   (Inl e, rest') \<Rightarrow> (Inl e, s2\<lparr>chunk_iter := rest'\<rparr>)
                 | (Inr None, rest') \<Rightarrow> (Inr None, s2\<lparr>chunk_iter := rest'\<rparr>)
                 | (Inr (Some c'), rest') \<Rightarrow>
                     (Inr (Some (hd c')), s2\<lparr>chunk_iter := rest', cur_chunk := c'\<rparr>)))))"

text \<open>\<^verbatim>\<open>self.char_index -= 1\<close>: the character just read is read again.\<close>

definition unget :: "tokenizer \<Rightarrow> tokenizer" where
  "unget s = s\<lparr>char_index := char_index s - 1\<rparr>"

subsection \<open>The scanner\<close>

text \<open>
  The inner loops of \<^verbatim>\<open>_next_token\<close>, one function each. \<^verbatim>\<open>value_chars\<close> is the text
  collected so far (the source joins the list when it returns).
\<close>

text \<open>The loop of a comment: skip to the end of the line or of the input.\<close>

partial_function (option) skip_comment :: "tokenizer \<Rightarrow> ((exn + unit) \<times> tokenizer) option" where
  "skip_comment s =
     (case next_char s of
        (Inl e, s1) \<Rightarrow> Some (Inl e, s1)
      | (Inr None, s1) \<Rightarrow> Some (Inr (), s1)
      | (Inr (Some c), s1) \<Rightarrow>
          if c = newline then Some (Inr (), s1) else skip_comment s1)"

text \<open>
  The loop of a quoted string. Its test for the end of the input,
  \<^verbatim>\<open>if next_char == -1\<close>, stands alone and compares the unsigned \<^verbatim>\<open>Py_UCS4\<close> with the
  signed \<open>-1\<close>: it never holds. At the end of the input the loop goes on to
  \<^verbatim>\<open>value_chars.append(next_char)\<close>, and turning the sentinel into a character raises
  \<^verbatim>\<open>ValueError\<close>. (The other tests for \<open>-1\<close> are parts of chains that compare within
  \<^verbatim>\<open>Py_UCS4\<close>, and hold at the end of the input.)
\<close>

definition chr_out_of_range :: exn where
  "chr_out_of_range = ValueError ''chr() arg not in range(0x110000)''"

partial_function (option) read_quoted ::
  "tokenizer \<Rightarrow> string \<Rightarrow> ((exn + token) \<times> tokenizer) option" where
  "read_quoted s value_chars =
     (case next_char s of
        (Inl e, s1) \<Rightarrow> Some (Inl e, s1)
      | (Inr None, s1) \<Rightarrow> Some (Inl chr_out_of_range, s1)
      | (Inr (Some c), s1) \<Rightarrow>
          if c = dquote then Some (Inr (STRING, Some value_chars), s1)
          else if c = newline then
            read_quoted (s1\<lparr>line_num := line_num s1 + 1\<rparr>) (value_chars @ [c])
          else if c = backslash then
            (case next_char s1 of
               (Inl e, s2) \<Rightarrow> Some (Inl e, s2)
             | (Inr None, s2) \<Rightarrow> Some (Inl (mk_error s2 ''Unterminated string!''), s2)
             | (Inr (Some escape_char), s2) \<Rightarrow>
                 if escape_char = CHR ''n'' then read_quoted s2 (value_chars @ [newline])
                 else if escape_char = CHR ''t'' then read_quoted s2 (value_chars @ [tab])
                 else if escape_char = newline then read_quoted s2 value_chars
                 else if escape_char \<in> set [dquote, backslash, CHR ''/''] then
                   read_quoted s2 (value_chars @ [escape_char])
                 else read_quoted s2 (value_chars @ [backslash, escape_char]))
          else read_quoted s1 (value_chars @ [c]))"

text \<open>The loop of a property flag, entered when \<^verbatim>\<open>string_bracket\<close> is set.\<close>

partial_function (option) read_flag ::
  "tokenizer \<Rightarrow> string \<Rightarrow> ((exn + token) \<times> tokenizer) option" where
  "read_flag s value_chars =
     (case next_char s of
        (Inl e, s1) \<Rightarrow> Some (Inl e, s1)
      | (Inr None, s1) \<Rightarrow> Some (Inl (mk_error s1 ''Unterminated property flag!''), s1)
      | (Inr (Some c), s1) \<Rightarrow>
          if c = CHR '']'' then Some (Inr (PROP_FLAG, Some value_chars), s1)
          else if c = newline then Some (Inl (error_Token s1 NEWLINE), s1)
          else read_flag s1 (value_chars @ [c]))"

text \<open>The loop of a parenthesised text.\<close>

partial_function (option) read_paren ::
  "tokenizer \<Rightarrow> string \<Rightarrow> ((exn + token) \<times> tokenizer) option" where
  "read_paren s value_chars =
     (case next_char s of
        (Inl e, s1) \<Rightarrow> Some (Inl e, s1)
      | (Inr None, s1) \<Rightarrow> Some (Inl (mk_error s1 ''Unterminated parentheses!''), s1)
      | (Inr (Some c), s1) \<Rightarrow>
          if c = CHR '')'' then Some (Inr (PAREN_ARGS, Some value_chars), s1)
          else if c = newline then
            read_paren (s1\<lparr>line_num := line_num s1 + 1\<rparr>) (value_chars @ [c])
          else read_paren s1 (value_chars @ [c]))"

text \<open>The loop of a bare word; the character that ends it is read again.\<close>

partial_function (option) read_bare ::
  "tokenizer \<Rightarrow> string \<Rightarrow> ((exn + token) \<times> tokenizer) option" where
  "read_bare s value_chars =
     (case next_char s of
        (Inl e, s1) \<Rightarrow> Some (Inl e, s1)
      | (Inr None, s1) \<Rightarrow> Some (Inr (STRING, Some value_chars), s1)
      | (Inr (Some c), s1) \<Rightarrow>
          if c \<in> set BARE_DISALLOWED then Some (Inr (STRING, Some value_chars), unget s1)
          else read_bare s1 (value_chars @ [c]))"

text \<open>
  \<^verbatim>\<open>_next_token(self)\<close>: the dispatch on the character read, in the order of the source.
  Blanks, and a comment once it is skipped, lead back to the head of the loop.
\<close>

partial_function (option) next_token :: "tokenizer \<Rightarrow> ((exn + token) \<times> tokenizer) option" where
  "next_token s =
     (case next_char s of
        (Inl e, s1) \<Rightarrow> Some (Inl e, s1)
      | (Inr None, s1) \<Rightarrow> Some (Inr (EOF, None), s1)
      | (Inr (Some c), s1) \<Rightarrow>
          if c = CHR ''{'' then Some (Inr (BRACE_OPEN, Some ''{''), s1)
          else if c = CHR ''}'' then Some (Inr (BRACE_CLOSE, Some ''}''), s1)
          else if c = CHR '':'' then Some (Inr (COLON, Some '':''), s1)
          else if c = CHR ''+'' then Some (Inr (PLUS, Some ''+''), s1)
          else if c = CHR ''='' then Some (Inr (EQUALS, Some ''=''), s1)
          else if c = CHR '']'' then Some (Inr (BRACK_CLOSE, Some '']''), s1)
          else if c = newline then
            Some (Inr (NEWLINE, Some [newline]), s1\<lparr>line_num := line_num s1 + 1\<rparr>)
          else if c \<in> set [CHR '' '', tab] then next_token s1
          else if c = CHR ''/'' then
            (case next_char s1 of
               (Inl e, s2) \<Rightarrow> Some (Inl e, s2)
             | (Inr c2, s2) \<Rightarrow>
                 if c2 \<noteq> Some (CHR ''/'') then
                   Some (Inl (mk_error s2 ''Single slash found!''), s2)
                 else
                   (case skip_comment s2 of
                      None \<Rightarrow> None
                    | Some (Inl e, s3) \<Rightarrow> Some (Inl e, s3)
                    | Some (Inr u, s3) \<Rightarrow> next_token (unget s3)))
          else if c = dquote then read_quoted s1 []
          else if c = CHR ''['' then
            (if \<not> string_bracket s1 then Some (Inr (BRACK_OPEN, Some ''[''), s1)
             else read_flag s1 [])
          else if c = CHR ''('' then read_paren s1 []
          else if c \<notin> set BARE_DISALLOWED then read_bare s1 [c]
          else Some (Inl (mk_error s1
                 (''Unexpected character '' @ [dquote, c, dquote] @ ''!'')), s1))"

subsection \<open>Expecting a token, and calling repeatedly\<close>

text \<open>
  \<^verbatim>\<open>expect(self, token, skip_newline=True)\<close>. The first call of \<^verbatim>\<open>_next_token\<close> and the
  \<^verbatim>\<open>while\<close> loop that follows it are one function: it returns the first token that the
  loop does not skip.
\<close>

partial_function (option) expect_loop ::
  "bool \<Rightarrow> tokenizer \<Rightarrow> ((exn + token) \<times> tokenizer) option" where
  "expect_loop skip_newline s =
     (case next_token s of
        None \<Rightarrow> None
      | Some (Inl e, s1) \<Rightarrow> Some (Inl e, s1)
      | Some (Inr (next_tok, val), s1) \<Rightarrow>
          if skip_newline \<and> next_tok = NEWLINE then expect_loop skip_newline s1
          else Some (Inr (next_tok, val), s1))"

text \<open>
  The method has no \<^verbatim>\<open>return\<close> statement: when it does not raise, its result is
  \<^verbatim>\<open>None\<close>, which is the inner \<open>None\<close> here; a string result would be \<open>Some\<close> of it.
\<close>

definition expect ::
  "Token \<Rightarrow> bool \<Rightarrow> tokenizer \<Rightarrow> ((exn + string option) \<times> tokenizer) option" where
  "expect tok skip_newline s =
     (let skip_newline = (if tok = NEWLINE then False else skip_newline) in
      case expect_loop skip_newline s of
        None \<Rightarrow> None
      | Some (Inl e, s1) \<Rightarrow> Some (Inl e, s1)
      | Some (Inr (next_tok, val), s1) \<Rightarrow>
          if next_tok \<noteq> tok then
            Some (Inl (mk_error s1 (''Expected '' @ Token_str tok @ '', but got '' @
                                    Token_str next_tok @ ''!'')), s1)
          else Some (Inr None, s1))"

text \<open>
  \<open>n\<close> calls of \<^verbatim>\<open>__call__\<close> in a row, with what each of them returned or raised (a caller
  may go on after an exception).
\<close>

primrec next_tokens :: "nat \<Rightarrow> tokenizer \<Rightarrow> ((exn + token) list \<times> tokenizer) option" where
  "next_tokens 0 s = Some ([], s)"
| "next_tokens (Suc n) s =
     (case next_token s of
        None \<Rightarrow> None
      | Some (r, s1) \<Rightarrow>
          (case next_tokens n s1 of
             None \<Rightarrow> None
           | Some (rs, s2) \<Rightarrow> Some (r # rs, s2)))"

declare skip_comment.simps [code] read_quoted.simps [code] read_flag.simps [code]
  read_paren.simps [code] read_bare.simps [code] next_token.simps [code]
  expect_loop.simps [code]

subsection \<open>The text that is left\<close>

text \<open>
  The text that is left is the rest of the current chunk followed by the chunks to come.
  \<open>room k s\<close> says that the tokenizer \<open>s\<close> is well formed with room for \<open>k\<close> more
  reads at the end of the input: its index has not gone below \<open>-1\<close> (the constructor sets
  it to \<open>-1\<close>, and a character is read again only right after it was read), every chunk
  still to come is a string, and when \<open>k\<close> is added the index stays below \<open>2^31\<close> and
  the length of no chunk goes beyond \<open>2^31\<close>, so that the index does not wrap around (a
  chunk of length \<open>l\<close> takes the index to \<open>l - 1\<close>, and every read at the end of the
  input adds one). A tokenizer is well formed, \<open>wf_source\<close>, when it has room for two
  such reads, which is what one call of \<^verbatim>\<open>next_token\<close> or \<^verbatim>\<open>expect\<close> can need.
\<close>

fun is_str :: "chunk \<Rightarrow> bool" where
  "is_str (Str c) = True"
| "is_str NoneChunk = False"
| "is_str (NonStr tp_name) = False"

fun chunk_text :: "chunk \<Rightarrow> string" where
  "chunk_text (Str c) = c"
| "chunk_text NoneChunk = []"
| "chunk_text (NonStr tp_name) = []"

definition chunks_text :: "chunk list \<Rightarrow> string" where
  "chunks_text cs = concat (map chunk_text cs)"

definition remaining :: "tokenizer \<Rightarrow> string" where
  "remaining s =
     drop (nat (sint (char_index s) + 1)) (cur_chunk s) @ chunks_text (chunk_iter s)"

definition same_cfg :: "tokenizer \<Rightarrow> tokenizer \<Rightarrow> bool" where
  "same_cfg s s' \<longleftrightarrow> error_type s' = error_type s \<and> filename s' = filename s \<and>
     string_bracket s' = string_bracket s"

definition fits :: "nat \<Rightarrow> chunk \<Rightarrow> bool" where
  "fits k c \<longleftrightarrow> is_str c \<and> int (length (chunk_text c)) + int k \<le> 2147483648"

definition room :: "nat \<Rightarrow> tokenizer \<Rightarrow> bool" where
  "room k s \<longleftrightarrow>
     - 1 \<le> sint (char_index s) \<and> sint (char_index s) + int k < 2147483648 \<and>
     int (length (cur_chunk s)) + int k \<le> 2147483648 \<and>
     list_all (fits k) (chunk_iter s)"

definition wf_source :: "tokenizer \<Rightarrow> bool" where
  "wf_source s \<longleftrightarrow> room 2 s"

lemma sint_succ:
  "sint (w :: c_int) < 2147483647 \<Longrightarrow> sint (w + 1) = sint w + 1"
proof -
  assume a: "sint w < 2147483647"
  have b: "- 2147483648 \<le> sint w" using sint_ge [of w] by simp
  have "sint (w + 1) = signed_take_bit 31 (sint w + 1)"
    by (simp add: sint_word_ariths)
  also have "\<dots> = sint w + 1"
    using a b by (intro signed_take_bit_int_eq_self) simp_all
  finally show ?thesis .
qed

lemma chunks_text_simps [simp]:
  "chunks_text [] = []"
  "chunks_text (c # cs) = chunk_text c @ chunks_text cs"
  by (simp_all add: chunks_text_def)

lemma fits_mono: "fits (Suc k) c \<Longrightarrow> fits k c"
  by (simp add: fits_def)

lemma list_all_fits_mono: "list_all (fits (Suc k)) cs \<Longrightarrow> list_all (fits k) cs"
  by (induction cs) (auto intro: fits_mono)

lemma room_mono: "room (Suc k) s \<Longrightarrow> room k s"
  by (auto simp: room_def intro: list_all_fits_mono)

lemma skip_empty_chunks_Nil:
  "list_all (fits k) cs \<Longrightarrow> chunks_text cs = [] \<Longrightarrow> skip_empty_chunks cs = (Inr None, [])"
  by (induction cs rule: skip_empty_chunks.induct) (auto simp: fits_def)

lemma skip_empty_chunks_Cons:
  "list_all (fits k) cs \<Longrightarrow> chunks_text cs = c # r \<Longrightarrow>
   \<exists>c' cs'. skip_empty_chunks cs = (Inr (Some (c # c')), cs') \<and>
            c' @ chunks_text cs' = r \<and> list_all (fits k) cs' \<and> fits k (Str (c # c'))"
  by (induction cs rule: skip_empty_chunks.induct) (auto simp: append_eq_Cons_conv fits_def)

lemma unget_fields [simp]:
  "line_num (unget s) = line_num s" "same_cfg s' (unget s) = same_cfg s' s"
  by (simp_all add: unget_def same_cfg_def)

lemma next_char_Nil:
  assumes "room (Suc k) s" "remaining s = []"
  shows "\<exists>s'. next_char s = (Inr None, s') \<and> remaining s' = [] \<and> room k s' \<and>
              line_num s' = line_num s \<and> same_cfg s s' \<and>
              remaining (unget s') = [] \<and> room (Suc k) (unget s')"
proof -
  from assms(1) have lo: "- 1 \<le> sint (char_index s)"
    and hi: "sint (char_index s) + int k + 1 < 2147483648"
    and len: "int (length (cur_chunk s)) + int k + 1 \<le> 2147483648"
    and all: "list_all (fits (Suc k)) (chunk_iter s)"
    by (simp_all add: room_def)
  from hi have sc: "sint (char_index s + 1) = sint (char_index s) + 1"
    by (intro sint_succ) simp
  from assms(2) have d: "drop (nat (sint (char_index s) + 1)) (cur_chunk s) = []"
    and t: "chunks_text (chunk_iter s) = []" by (simp_all add: remaining_def)
  from d lo have past: "\<not> sint (char_index s) + 1 < int (length (cur_chunk s))" by auto
  show ?thesis
  proof (cases "chunk_iter s")
    case Nil
    with past sc have nc: "next_char s = (Inr None, s\<lparr>char_index := char_index s + 1\<rparr>)"
      by (simp add: next_char_def Let_def)
    have u: "unget (s\<lparr>char_index := char_index s + 1\<rparr>) = s" by (simp add: unget_def)
    have "remaining (s\<lparr>char_index := char_index s + 1\<rparr>) = []"
      using d t past lo sc by (simp add: remaining_def)
    moreover have "room k (s\<lparr>char_index := char_index s + 1\<rparr>)"
      using lo hi len all sc Nil by (simp add: room_def)
    ultimately show ?thesis using nc u assms by (simp add: same_cfg_def)
  next
    case (Cons a rest)
    with all t obtain x where a: "a = Str x" and x: "x = []"
      and r: "list_all (fits (Suc k)) rest" "chunks_text rest = []"
      by (cases a) (auto simp: fits_def)
    from skip_empty_chunks_Nil [OF r] have sk: "skip_empty_chunks rest = (Inr None, [])" .
    let ?s' = "s\<lparr>char_index := 0, chunk_iter := [], cur_chunk := []\<rparr>"
    from past sc Cons a x sk have nc: "next_char s = (Inr None, ?s')"
      by (simp add: next_char_def Let_def)
    have "remaining ?s' = []" by (simp add: remaining_def)
    moreover have "room k ?s'" using len by (simp add: room_def)
    moreover have "remaining (unget ?s') = []" by (simp add: remaining_def unget_def)
    moreover have "room (Suc k) (unget ?s')" using len by (simp add: room_def unget_def)
    ultimately show ?thesis using nc by (simp add: same_cfg_def)
  qed
qed

lemma next_char_Cons:
  assumes "room (Suc k) s" "remaining s = c # r"
  shows "\<exists>s'. next_char s = (Inr (Some c), s') \<and> remaining s' = r \<and> room (Suc k) s' \<and>
              line_num s' = line_num s \<and> same_cfg s s' \<and>
              remaining (unget s') = c # r \<and> room (Suc k) (unget s')"
proof -
  from assms(1) have lo: "- 1 \<le> sint (char_index s)"
    and hi: "sint (char_index s) + int k + 1 < 2147483648"
    and len: "int (length (cur_chunk s)) + int k + 1 \<le> 2147483648"
    and all: "list_all (fits (Suc k)) (chunk_iter s)"
    by (simp_all add: room_def)
  from hi have sc: "sint (char_index s + 1) = sint (char_index s) + 1"
    by (intro sint_succ) simp
  show ?thesis
  proof (cases "sint (char_index s) + 1 < int (length (cur_chunk s))")
    case True
    let ?i = "nat (sint (char_index s) + 1)"
    let ?s' = "s\<lparr>char_index := char_index s + 1\<rparr>"
    from lo have nn: "0 \<le> sint (char_index s) + 1" "\<not> sint (char_index s) + 1 < 0" by auto
    with True have i: "?i < length (cur_chunk s)" by simp
    then have "drop ?i (cur_chunk s) = cur_chunk s ! ?i # drop (Suc ?i) (cur_chunk s)"
      by (simp add: Cons_nth_drop_Suc)
    with assms(2) have c: "cur_chunk s ! ?i = c"
      and r: "drop (Suc ?i) (cur_chunk s) @ chunks_text (chunk_iter s) = r"
      by (simp_all add: remaining_def)
    have nc: "next_char s = (Inr (Some c), ?s')"
      using True nn c sc by (simp add: next_char_def getitem_def Let_def)
    have u: "unget ?s' = s" by (simp add: unget_def)
    have "nat (sint (char_index s) + 1 + 1) = Suc ?i" using nn by simp
    then have "remaining ?s' = r" using r sc by (simp add: remaining_def)
    moreover have "room (Suc k) ?s'"
      using True lo len all sc by (simp add: room_def)
    ultimately show ?thesis using nc u assms by (simp add: same_cfg_def)
  next
    case False
    with lo have d: "drop (nat (sint (char_index s) + 1)) (cur_chunk s) = []" by simp
    with assms(2) have t: "chunks_text (chunk_iter s) = c # r" by (simp add: remaining_def)
    then obtain a rest where ks: "chunk_iter s = a # rest" by (cases "chunk_iter s") auto
    with all obtain x where a: "a = Str x" and fx: "fits (Suc k) (Str x)"
      and fr: "list_all (fits (Suc k)) rest"
      by (cases a) (auto simp: fits_def)
    show ?thesis
    proof (cases x)
      case Nil
      with t ks a have "chunks_text rest = c # r" by simp
      from skip_empty_chunks_Cons [OF fr this] obtain c' cs' where
        sk: "skip_empty_chunks rest = (Inr (Some (c # c')), cs')" "c' @ chunks_text cs' = r"
          "list_all (fits (Suc k)) cs'" "fits (Suc k) (Str (c # c'))" by blast
      from sk(4) have k0: "int k + 1 < 2147483648" by (simp add: fits_def)
      let ?s' = "s\<lparr>char_index := 0, chunk_iter := cs', cur_chunk := c # c'\<rparr>"
      from False sc ks a Nil sk(1) have nc: "next_char s = (Inr (Some c), ?s')"
        by (simp add: next_char_def Let_def)
      have "remaining ?s' = r" using sk(2) by (simp add: remaining_def)
      moreover have "room (Suc k) ?s'" using sk(3,4) k0 by (simp add: room_def fits_def)
      moreover have "remaining (unget ?s') = c # r"
        using sk(2) by (simp add: remaining_def unget_def)
      moreover have "room (Suc k) (unget ?s')"
        using sk(3,4) k0 by (simp add: room_def fits_def unget_def)
      ultimately show ?thesis using nc by (simp add: same_cfg_def)
    next
      case (Cons y ys)
      with t ks a have y: "y = c" "ys @ chunks_text rest = r" by simp_all
      from fx Cons have k0: "int k + 1 < 2147483648" by (simp add: fits_def)
      let ?s' = "s\<lparr>char_index := 0, chunk_iter := rest, cur_chunk := c # ys\<rparr>"
      from False sc ks a Cons y have nc: "next_char s = (Inr (Some c), ?s')"
        by (simp add: next_char_def Let_def)
      have "remaining ?s' = r" using y by (simp add: remaining_def)
      moreover have "room (Suc k) ?s'" using fx fr k0 Cons y by (simp add: room_def fits_def)
      moreover have "remaining (unget ?s') = c # r"
        using y by (simp add: remaining_def unget_def)
      moreover have "room (Suc k) (unget ?s')"
        using fx fr k0 Cons y by (simp add: room_def fits_def unget_def)
      ultimately show ?thesis using nc by (simp add: same_cfg_def)
    qed
  qed
qed

lemma line_num_update_simps [simp]:
  "remaining (s\<lparr>line_num := n\<rparr>) = remaining s"
  "room k (s\<lparr>line_num := n\<rparr>) = room k s"
  "same_cfg s (t\<lparr>line_num := n\<rparr>) = same_cfg s t"
  "same_cfg (s\<lparr>line_num := n\<rparr>) t = same_cfg s t"
  by (simp_all add: remaining_def room_def same_cfg_def)

lemma same_cfg_refl [simp]: "same_cfg s s"
  by (simp add: same_cfg_def)

lemma same_cfg_trans: "same_cfg s t \<Longrightarrow> same_cfg t u \<Longrightarrow> same_cfg s u"
  by (simp add: same_cfg_def)

subsection \<open>One step of each loop\<close>

text \<open>
  What an escape adds to \<^verbatim>\<open>value_chars\<close>, read off the branches of the string loop
  (lemma \<open>read_quoted_esc\<close> ties it to them).
\<close>

definition escape_text :: "char \<Rightarrow> string" where
  "escape_text e =
     (if e = CHR ''n'' then [newline]
      else if e = CHR ''t'' then [tab]
      else if e = newline then []
      else if e \<in> set [dquote, backslash, CHR ''/''] then [e]
      else [backslash, e])"

lemma read_quoted_None:
  "next_char s = (Inr None, s1) \<Longrightarrow> read_quoted s v = Some (Inl chr_out_of_range, s1)"
  by (simp add: read_quoted.simps [of s v])

lemma read_quoted_close:
  "next_char s = (Inr (Some dquote), s1) \<Longrightarrow>
     read_quoted s v = Some (Inr (STRING, Some v), s1)"
  by (simp add: read_quoted.simps [of s v])

lemma read_quoted_newline:
  "next_char s = (Inr (Some newline), s1) \<Longrightarrow>
     read_quoted s v = read_quoted (s1\<lparr>line_num := line_num s1 + 1\<rparr>) (v @ [newline])"
  by (simp add: read_quoted.simps [of s v])

lemma read_quoted_plain:
  "next_char s = (Inr (Some c), s1) \<Longrightarrow> c \<noteq> dquote \<Longrightarrow> c \<noteq> newline \<Longrightarrow>
     c \<noteq> backslash \<Longrightarrow> read_quoted s v = read_quoted s1 (v @ [c])"
  by (simp add: read_quoted.simps [of s v])

lemma read_quoted_esc_None:
  "next_char s = (Inr (Some backslash), s1) \<Longrightarrow> next_char s1 = (Inr None, s2) \<Longrightarrow>
     read_quoted s v = Some (Inl (mk_error s2 ''Unterminated string!''), s2)"
  by (simp add: read_quoted.simps [of s v])

lemma read_quoted_esc:
  "next_char s = (Inr (Some backslash), s1) \<Longrightarrow> next_char s1 = (Inr (Some e), s2) \<Longrightarrow>
     read_quoted s v = read_quoted s2 (v @ escape_text e)"
  by (simp add: read_quoted.simps [of s v] escape_text_def)


lemma next_token_None:
  "next_char s = (Inr None, s1) \<Longrightarrow> next_token s = Some (Inr (EOF, None), s1)"
  by (simp add: next_token.simps [of s])

lemma next_token_blank:
  "next_char s = (Inr (Some c), s1) \<Longrightarrow> c = CHR '' '' \<or> c = tab \<Longrightarrow>
     next_token s = next_token s1"
  by (auto simp add: next_token.simps [of s])

lemma next_token_newline:
  "next_char s = (Inr (Some newline), s1) \<Longrightarrow>
     next_token s = Some (Inr (NEWLINE, Some [newline]), s1\<lparr>line_num := line_num s1 + 1\<rparr>)"
  by (simp add: next_token.simps [of s])

lemma next_token_single_slash:
  "next_char s = (Inr (Some (CHR ''/'')), s1) \<Longrightarrow> next_char s1 = (Inr c2, s2) \<Longrightarrow>
     c2 \<noteq> Some (CHR ''/'') \<Longrightarrow>
     next_token s = Some (Inl (mk_error s2 ''Single slash found!''), s2)"
  by (simp add: next_token.simps [of s])

lemma next_token_comment:
  "next_char s = (Inr (Some (CHR ''/'')), s1) \<Longrightarrow>
   next_char s1 = (Inr (Some (CHR ''/'')), s2) \<Longrightarrow> skip_comment s2 = Some (Inr u, s3) \<Longrightarrow>
     next_token s = next_token (unget s3)"
  by (simp add: next_token.simps [of s])

text \<open>The branches of the dispatch that are left once blanks and comments are set aside.\<close>

definition dispatch :: "char \<Rightarrow> tokenizer \<Rightarrow> ((exn + token) \<times> tokenizer) option" where
  "dispatch c s1 =
     (if c = CHR ''{'' then Some (Inr (BRACE_OPEN, Some ''{''), s1)
      else if c = CHR ''}'' then Some (Inr (BRACE_CLOSE, Some ''}''), s1)
      else if c = CHR '':'' then Some (Inr (COLON, Some '':''), s1)
      else if c = CHR ''+'' then Some (Inr (PLUS, Some ''+''), s1)
      else if c = CHR ''='' then Some (Inr (EQUALS, Some ''=''), s1)
      else if c = CHR '']'' then Some (Inr (BRACK_CLOSE, Some '']''), s1)
      else if c = dquote then read_quoted s1 []
      else if c = CHR ''['' then
        (if \<not> string_bracket s1 then Some (Inr (BRACK_OPEN, Some ''[''), s1)
         else read_flag s1 [])
      else if c = CHR ''('' then read_paren s1 []
      else if c \<notin> set BARE_DISALLOWED then read_bare s1 [c]
      else Some (Inl (mk_error s1 (''Unexpected character '' @ [dquote, c, dquote] @ ''!'')), s1))"

lemma next_token_dispatch:
  "next_char s = (Inr (Some c), s1) \<Longrightarrow> c \<noteq> newline \<Longrightarrow> c \<noteq> CHR '' '' \<Longrightarrow>
     c \<noteq> tab \<Longrightarrow> c \<noteq> CHR ''/'' \<Longrightarrow> next_token s = dispatch c s1"
  by (simp add: next_token.simps [of s] dispatch_def)

subsection \<open>The scanner as a function of the text that is left\<close>

text \<open>
  For a well-formed tokenizer the scanner depends on the text that is left, the line
  number and the bracket mode only, not on where the chunks are cut. The functions
  \<open>lex_\<dots>\<close> are the loops of the scanner on that text: they return the token or the
  error (the message of an error of the configured type, or a built-in exception), the
  line number, and the text left over. They are used in the proofs only; the lemmas
  \<open>\<dots>_lex\<close> show that the tokenizer computes them.
\<close>

datatype lex_error = Configured string | Builtin exn

type_synonym lexed = "(lex_error + token) \<times> c_int \<times> string"

fun lex_paren :: "string \<Rightarrow> string \<Rightarrow> c_int \<Rightarrow> lexed" where
  "lex_paren [] v n = (Inl (Configured ''Unterminated parentheses!''), n, [])"
| "lex_paren (c # cs) v n =
     (if c = CHR '')'' then (Inr (PAREN_ARGS, Some v), n, cs)
      else if c = newline then lex_paren cs (v @ [c]) (n + 1)
      else lex_paren cs (v @ [c]) n)"

fun lex_flag :: "string \<Rightarrow> string \<Rightarrow> c_int \<Rightarrow> lexed" where
  "lex_flag [] v n = (Inl (Configured ''Unterminated property flag!''), n, [])"
| "lex_flag (c # cs) v n =
     (if c = CHR '']'' then (Inr (PROP_FLAG, Some v), n, cs)
      else if c = newline then (Inl (Configured ''Unexpected token NEWLINE!''), n, cs)
      else lex_flag cs (v @ [c]) n)"

fun lex_bare :: "string \<Rightarrow> string \<Rightarrow> c_int \<Rightarrow> lexed" where
  "lex_bare [] v n = (Inr (STRING, Some v), n, [])"
| "lex_bare (c # cs) v n =
     (if c \<in> set BARE_DISALLOWED then (Inr (STRING, Some v), n, c # cs)
      else lex_bare cs (v @ [c]) n)"

fun lex_quoted :: "string \<Rightarrow> string \<Rightarrow> c_int \<Rightarrow> lexed" where
  "lex_quoted [] v n = (Inl (Builtin chr_out_of_range), n, [])"
| "lex_quoted (c # cs) v n =
     (if c = dquote then (Inr (STRING, Some v), n, cs)
      else if c = newline then lex_quoted cs (v @ [c]) (n + 1)
      else if c = backslash then
        (case cs of
           [] \<Rightarrow> (Inl (Configured ''Unterminated string!''), n, [])
         | e # cs' \<Rightarrow> lex_quoted cs' (v @ escape_text e) n)
      else lex_quoted cs (v @ [c]) n)"

definition lex_comment :: "string \<Rightarrow> string" where
  "lex_comment cs = dropWhile (\<lambda>c. c \<noteq> newline) cs"

function lex_token :: "bool \<Rightarrow> string \<Rightarrow> c_int \<Rightarrow> lexed" where
  "lex_token sb [] n = (Inr (EOF, None), n, [])"
| "lex_token sb (c # cs) n =
     (if c = CHR ''{'' then (Inr (BRACE_OPEN, Some ''{''), n, cs)
      else if c = CHR ''}'' then (Inr (BRACE_CLOSE, Some ''}''), n, cs)
      else if c = CHR '':'' then (Inr (COLON, Some '':''), n, cs)
      else if c = CHR ''+'' then (Inr (PLUS, Some ''+''), n, cs)
      else if c = CHR ''='' then (Inr (EQUALS, Some ''=''), n, cs)
      else if c = CHR '']'' then (Inr (BRACK_CLOSE, Some '']''), n, cs)
      else if c = newline then (Inr (NEWLINE, Some [newline]), n + 1, cs)
      else if c = CHR '' '' \<or> c = tab then lex_token sb cs n
      else if c = CHR ''/'' then
        (case cs of
           [] \<Rightarrow> (Inl (Configured ''Single slash found!''), n, [])
         | c2 # cs2 \<Rightarrow>
             if c2 \<noteq> CHR ''/'' then (Inl (Configured ''Single slash found!''), n, cs2)
             else lex_token sb (lex_comment cs2) n)
      else if c = dquote then lex_quoted cs [] n
      else if c = CHR ''['' then
        (if \<not> sb then (Inr (BRACK_OPEN, Some ''[''), n, cs) else lex_flag cs [] n)
      else if c = CHR ''('' then lex_paren cs [] n
      else if c \<notin> set BARE_DISALLOWED then lex_bare cs [c] n
      else (Inl (Configured (''Unexpected character '' @ [dquote, c, dquote] @ ''!'')), n, cs))"
  by pat_completeness auto
termination
  by (relation "measure (\<lambda>(sb, cs, n). length cs)")
     (auto simp: lex_comment_def less_Suc_eq_le intro: le_SucI length_dropWhile_le)

text \<open>The exception that an error of the scanner on the text is, in a given tokenizer.\<close>

fun raise_as :: "tokenizer \<Rightarrow> lex_error \<Rightarrow> exn" where
  "raise_as s (Configured m) = mk_error s m"
| "raise_as s (Builtin e) = e"

definition raised :: "tokenizer \<Rightarrow> lex_error + token \<Rightarrow> exn + token" where
  "raised s' a = (case a of Inl x \<Rightarrow> Inl (raise_as s' x) | Inr t \<Rightarrow> Inr t)"

text \<open>
  \<open>answers k s res ares\<close>: the call returned, with the result, the line number and the
  text left that \<open>ares\<close> gives; the tokenizer it leaves has the configuration of \<open>s\<close> and
  room for \<open>k\<close> more reads at the end of the input, and for one more than that unless
  the text is used up.
\<close>

definition answers ::
  "nat \<Rightarrow> tokenizer \<Rightarrow> ((exn + token) \<times> tokenizer) option \<Rightarrow> lexed \<Rightarrow> bool" where
  "answers k s res ares =
     (case ares of (a, n, rest) \<Rightarrow>
        \<exists>s'. res = Some (raised s' a, s') \<and>
          line_num s' = n \<and> remaining s' = rest \<and> room k s' \<and>
          (rest \<noteq> [] \<longrightarrow> room (Suc k) s') \<and> same_cfg s s')"

lemma answers_trans: "same_cfg s t \<Longrightarrow> answers k t res ares \<Longrightarrow> answers k s res ares"
  by (auto simp: answers_def same_cfg_def split: prod.splits)

lemma answers_token:
  "line_num s' = n \<Longrightarrow> remaining s' = rest \<Longrightarrow> room (Suc k) s' \<Longrightarrow> same_cfg s s' \<Longrightarrow>
     answers k s (Some (Inr t, s')) (Inr t, n, rest)"
  by (auto simp: answers_def raised_def intro: room_mono)

lemma answers_error:
  "line_num s' = n \<Longrightarrow> remaining s' = rest \<Longrightarrow> room (Suc k) s' \<Longrightarrow> same_cfg s s' \<Longrightarrow>
     answers k s (Some (Inl (mk_error s' m), s')) (Inl (Configured m), n, rest)"
  by (auto simp: answers_def raised_def intro: room_mono)

lemma answers_token_end:
  "line_num s' = n \<Longrightarrow> remaining s' = [] \<Longrightarrow> room k s' \<Longrightarrow> same_cfg s s' \<Longrightarrow>
     answers k s (Some (Inr t, s')) (Inr t, n, [])"
  by (auto simp: answers_def raised_def)

lemma answers_error_end:
  "line_num s' = n \<Longrightarrow> remaining s' = [] \<Longrightarrow> room k s' \<Longrightarrow> same_cfg s s' \<Longrightarrow>
     answers k s (Some (Inl (raise_as s' x), s')) (Inl x, n, [])"
  by (auto simp: answers_def raised_def)

lemma read_paren_lex:
  "room (Suc k) s \<Longrightarrow> answers k s (read_paren s v) (lex_paren (remaining s) v (line_num s))"
proof (induction "length (remaining s)" arbitrary: s v rule: less_induct)
  case less
  show ?case
  proof (cases "remaining s")
    case Nil
    from next_char_Nil [OF less.prems Nil] obtain s1 where
      s1: "next_char s = (Inr None, s1)" "remaining s1 = []" "room k s1"
      "line_num s1 = line_num s" "same_cfg s s1" by blast
    from answers_error_end [OF s1(4,2,3,5), of "Configured ''Unterminated parentheses!''"]
      Nil s1(1) show ?thesis by (simp add: read_paren.simps [of s v])
  next
    case (Cons c cs)
    from next_char_Cons [OF less.prems Cons] obtain s1 where
      s1: "next_char s = (Inr (Some c), s1)" "remaining s1 = cs" "room (Suc k) s1"
      "line_num s1 = line_num s" "same_cfg s s1" by blast
    have IH: "answers k s (read_paren t w) (lex_paren cs w (line_num t))"
      if "remaining t = cs" "room (Suc k) t" "same_cfg s t" for t w
      using less.hyps [of t w] that Cons by (auto intro: answers_trans)
    show ?thesis
    proof (cases "c = CHR '')''")
      case True
      from answers_token [OF s1(4,2,3,5)] True s1(1) Cons show ?thesis
        by (simp add: read_paren.simps [of s v])
    next
      case False
      show ?thesis
      proof (cases "c = newline")
        case True
        with s1 Cons IH [of "s1\<lparr>line_num := line_num s1 + 1\<rparr>" "v @ [c]"] show ?thesis
          by (simp add: read_paren.simps [of s v])
      next
        case nn: False
        with False s1 Cons IH [of s1 "v @ [c]"] show ?thesis
          by (simp add: read_paren.simps [of s v])
      qed
    qed
  qed
qed

lemma read_flag_lex:
  "room (Suc k) s \<Longrightarrow> answers k s (read_flag s v) (lex_flag (remaining s) v (line_num s))"
proof (induction "length (remaining s)" arbitrary: s v rule: less_induct)
  case less
  show ?case
  proof (cases "remaining s")
    case Nil
    from next_char_Nil [OF less.prems Nil] obtain s1 where
      s1: "next_char s = (Inr None, s1)" "remaining s1 = []" "room k s1"
      "line_num s1 = line_num s" "same_cfg s s1" by blast
    from answers_error_end [OF s1(4,2,3,5), of "Configured ''Unterminated property flag!''"]
      Nil s1(1) show ?thesis by (simp add: read_flag.simps [of s v])
  next
    case (Cons c cs)
    from next_char_Cons [OF less.prems Cons] obtain s1 where
      s1: "next_char s = (Inr (Some c), s1)" "remaining s1 = cs" "room (Suc k) s1"
      "line_num s1 = line_num s" "same_cfg s s1" by blast
    have IH: "answers k s (read_flag t w) (lex_flag cs w (line_num t))"
      if "remaining t = cs" "room (Suc k) t" "same_cfg s t" for t w
      using less.hyps [of t w] that Cons by (auto intro: answers_trans)
    consider "c = CHR '']''" | "c \<noteq> CHR '']''" "c = newline"
      | "c \<noteq> CHR '']''" "c \<noteq> newline" by blast
    then show ?thesis
    proof cases
      case 1
      from answers_token [OF s1(4,2,3,5)] 1 s1(1) Cons show ?thesis
        by (simp add: read_flag.simps [of s v])
    next
      case 2
      from answers_error [OF s1(4,2,3,5), of "''Unexpected token NEWLINE!''"] 2 s1(1) Cons
      show ?thesis by (simp add: read_flag.simps [of s v] error_Token_def)
    next
      case 3
      with s1 Cons IH [of s1 "v @ [c]"] show ?thesis
        by (simp add: read_flag.simps [of s v])
    qed
  qed
qed

lemma read_bare_lex:
  "room (Suc k) s \<Longrightarrow> answers k s (read_bare s v) (lex_bare (remaining s) v (line_num s))"
proof (induction "length (remaining s)" arbitrary: s v rule: less_induct)
  case less
  show ?case
  proof (cases "remaining s")
    case Nil
    from next_char_Nil [OF less.prems Nil] obtain s1 where
      s1: "next_char s = (Inr None, s1)" "remaining s1 = []" "room k s1"
      "line_num s1 = line_num s" "same_cfg s s1" by blast
    from answers_token_end [OF s1(4,2,3,5)] Nil s1(1) show ?thesis
      by (simp add: read_bare.simps [of s v])
  next
    case (Cons c cs)
    from next_char_Cons [OF less.prems Cons] obtain s1 where
      s1: "next_char s = (Inr (Some c), s1)" "remaining s1 = cs" "room (Suc k) s1"
      "line_num s1 = line_num s" "same_cfg s s1"
      and u: "remaining (unget s1) = c # cs" "room (Suc k) (unget s1)" by blast
    have IH: "answers k s (read_bare t w) (lex_bare cs w (line_num t))"
      if "remaining t = cs" "room (Suc k) t" "same_cfg s t" for t w
      using less.hyps [of t w] that Cons by (auto intro: answers_trans)
    show ?thesis
    proof (cases "c \<in> set BARE_DISALLOWED")
      case True
      from s1(4,5) have "line_num (unget s1) = line_num s" "same_cfg s (unget s1)" by simp_all
      from answers_token [OF this(1) u this(2)] True s1(1) Cons show ?thesis
        by (simp add: read_bare.simps [of s v])
    next
      case False
      with s1 Cons IH [of s1 "v @ [c]"] show ?thesis
        by (simp add: read_bare.simps [of s v])
    qed
  qed
qed

lemma read_quoted_lex:
  "room (Suc k) s \<Longrightarrow>
     answers k s (read_quoted s v) (lex_quoted (remaining s) v (line_num s))"
proof (induction "length (remaining s)" arbitrary: s v rule: less_induct)
  case less
  show ?case
  proof (cases "remaining s")
    case Nil
    from next_char_Nil [OF less.prems Nil] obtain s1 where
      s1: "next_char s = (Inr None, s1)" "remaining s1 = []" "room k s1"
      "line_num s1 = line_num s" "same_cfg s s1" by blast
    from answers_error_end [OF s1(4,2,3,5), of "Builtin chr_out_of_range"]
      Nil s1(1) show ?thesis by (simp add: read_quoted_None)
  next
    case (Cons c cs)
    from next_char_Cons [OF less.prems Cons] obtain s1 where
      s1: "next_char s = (Inr (Some c), s1)" "remaining s1 = cs" "room (Suc k) s1"
      "line_num s1 = line_num s" "same_cfg s s1" by blast
    have IH: "answers k s (read_quoted t w) (lex_quoted (remaining t) w (line_num t))"
      if "length (remaining t) < length (remaining s)" "room (Suc k) t" "same_cfg s t" for t w
      using less.hyps [of t w] that by (auto intro: answers_trans)
    consider "c = dquote" | "c = newline" | "c = backslash"
      | "c \<noteq> dquote" "c \<noteq> newline" "c \<noteq> backslash" by blast
    then show ?thesis
    proof cases
      case 1
      from answers_token [OF s1(4,2,3,5)] 1 s1(1) Cons show ?thesis
        by (simp add: read_quoted_close)
    next
      case 2
      with s1 Cons IH [of "s1\<lparr>line_num := line_num s1 + 1\<rparr>" "v @ [c]"] show ?thesis
        by (simp add: read_quoted_newline)
    next
      case 3
      show ?thesis
      proof (cases cs)
        case Nil
        from next_char_Nil [OF s1(3)] s1(2) Nil obtain s2 where
          s2: "next_char s1 = (Inr None, s2)" "remaining s2 = []" "room k s2"
          "line_num s2 = line_num s1" "same_cfg s1 s2" by auto
        from s1(5) s2(5) have c2: "same_cfg s s2" by (rule same_cfg_trans)
        from s2(4) s1(4) have l2: "line_num s2 = line_num s" by simp
        from answers_error_end [OF l2 s2(2,3) c2, of "Configured ''Unterminated string!''"]
          3 s1(1) s2(1) Cons Nil show ?thesis
          by (simp add: read_quoted_esc_None)
      next
        case inner: (Cons e cs')
        from next_char_Cons [OF s1(3)] s1(2) inner obtain s2 where
          s2: "next_char s1 = (Inr (Some e), s2)" "remaining s2 = cs'" "room (Suc k) s2"
          "line_num s2 = line_num s1" "same_cfg s1 s2" by auto
        from s1(5) s2(5) have "same_cfg s s2" by (rule same_cfg_trans)
        with 3 s1 s2 Cons inner IH [of s2 "v @ escape_text e"] show ?thesis
          by (simp add: read_quoted_esc)
      qed
    next
      case 4
      with s1 Cons IH [of s1 "v @ [c]"] show ?thesis
        by (simp add: read_quoted_plain)
    qed
  qed
qed

lemma skip_comment_lex:
  "room (Suc k) s \<Longrightarrow>
     \<exists>s'. skip_comment s = Some (Inr (), s') \<and>
          remaining (unget s') = lex_comment (remaining s) \<and>
          room (Suc k) (unget s') \<and> line_num s' = line_num s \<and> same_cfg s s'"
proof (induction "length (remaining s)" arbitrary: s rule: less_induct)
  case less
  show ?case
  proof (cases "remaining s")
    case Nil
    from next_char_Nil [OF less.prems Nil] obtain s1 where
      s1: "next_char s = (Inr None, s1)" "line_num s1 = line_num s" "same_cfg s s1"
      and u: "remaining (unget s1) = []" "room (Suc k) (unget s1)" by blast
    with Nil show ?thesis by (simp add: skip_comment.simps [of s] lex_comment_def)
  next
    case (Cons c cs)
    from next_char_Cons [OF less.prems Cons] obtain s1 where
      s1: "next_char s = (Inr (Some c), s1)" "remaining s1 = cs" "room (Suc k) s1"
      "line_num s1 = line_num s" "same_cfg s s1"
      and u: "remaining (unget s1) = c # cs" "room (Suc k) (unget s1)" by blast
    show ?thesis
    proof (cases "c = newline")
      case True
      with s1 u Cons show ?thesis by (simp add: skip_comment.simps [of s] lex_comment_def)
    next
      case False
      from less.hyps [of s1] s1 Cons obtain s' where
        "skip_comment s1 = Some (Inr (), s')" "remaining (unget s') = lex_comment cs"
        "room (Suc k) (unget s')" "line_num s' = line_num s1" "same_cfg s1 s'" by auto
      with False s1 Cons show ?thesis
        by (auto simp add: skip_comment.simps [of s] lex_comment_def intro: same_cfg_trans)
    qed
  qed
qed

lemma dispatch_lex:
  assumes "room (Suc k) s1" "c \<noteq> newline" "c \<noteq> CHR '' ''" "c \<noteq> tab" "c \<noteq> CHR ''/''"
  shows "answers k s1 (dispatch c s1)
           (lex_token (string_bracket s1) (c # remaining s1) (line_num s1))"
  using assms read_quoted_lex [OF assms(1), of "[]"] read_flag_lex [OF assms(1), of "[]"]
    read_paren_lex [OF assms(1), of "[]"] read_bare_lex [OF assms(1), of "[c]"]
    answers_token [of s1 "line_num s1" "remaining s1" k s1]
    answers_error [of s1 "line_num s1" "remaining s1" k s1]
  by (simp add: dispatch_def)

lemma next_token_lex:
  "room (Suc k) s \<Longrightarrow>
     answers k s (next_token s) (lex_token (string_bracket s) (remaining s) (line_num s))"
proof (induction "length (remaining s)" arbitrary: s rule: less_induct)
  case less
  show ?case
  proof (cases "remaining s")
    case Nil
    from next_char_Nil [OF less.prems Nil] obtain s1 where
      s1: "next_char s = (Inr None, s1)" "remaining s1 = []" "room k s1"
      "line_num s1 = line_num s" "same_cfg s s1" by blast
    from answers_token_end [OF s1(4,2,3,5)] Nil s1(1) show ?thesis
      by (simp add: next_token_None)
  next
    case (Cons c cs)
    from next_char_Cons [OF less.prems Cons] obtain s1 where
      s1: "next_char s = (Inr (Some c), s1)" "remaining s1 = cs" "room (Suc k) s1"
      "line_num s1 = line_num s" "same_cfg s s1" by blast
    then have sb: "string_bracket s1 = string_bracket s" by (simp add: same_cfg_def)
    have IH: "answers k s (next_token t)
        (lex_token (string_bracket s) (remaining t) (line_num t))"
      if "length (remaining t) < length (remaining s)" "room (Suc k) t" "same_cfg s t" for t
      using less.hyps [of t] that by (auto intro: answers_trans simp: same_cfg_def)
    consider "c = newline" | "c = CHR '' '' \<or> c = tab" | "c = CHR ''/''"
      | "c \<noteq> newline" "c \<noteq> CHR '' ''" "c \<noteq> tab" "c \<noteq> CHR ''/''" by blast
    then show ?thesis
    proof cases
      case 1
      have "answers k s (Some (Inr (NEWLINE, Some [newline]), s1\<lparr>line_num := line_num s1 + 1\<rparr>))
              (Inr (NEWLINE, Some [newline]), line_num s + 1, cs)"
        using s1 by (intro answers_token) simp_all
      with 1 s1(1) Cons show ?thesis by (simp add: next_token_newline)
    next
      case 2
      with s1 Cons IH [of s1] show ?thesis by (auto simp add: next_token_blank)
    next
      case 3
      show ?thesis
      proof (cases cs)
        case Nil
        from next_char_Nil [OF s1(3)] s1(2) Nil obtain s2 where
          s2: "next_char s1 = (Inr None, s2)" "remaining s2 = []" "room k s2"
          "line_num s2 = line_num s1" "same_cfg s1 s2" by auto
        from s1(5) s2(5) have c2: "same_cfg s s2" by (rule same_cfg_trans)
        from s2(4) s1(4) have l2: "line_num s2 = line_num s" by simp
        from answers_error_end [OF l2 s2(2,3) c2, of "Configured ''Single slash found!''"]
          3 s1(1) s2(1) Cons Nil show ?thesis
          by (simp add: next_token_single_slash)
      next
        case inner: (Cons c2 cs2)
        from next_char_Cons [OF s1(3)] s1(2) inner obtain s2 where
          s2: "next_char s1 = (Inr (Some c2), s2)" "remaining s2 = cs2" "room (Suc k) s2"
          "line_num s2 = line_num s1" "same_cfg s1 s2" by auto
        from s1(5) s2(5) have c2: "same_cfg s s2" by (rule same_cfg_trans)
        from s2(4) s1(4) have l2: "line_num s2 = line_num s" by simp
        show ?thesis
        proof (cases "c2 = CHR ''/''")
          case False
          from answers_error [OF l2 s2(2,3) c2, of "''Single slash found!''"]
            False 3 s1(1) s2(1) Cons inner show ?thesis
            by (simp add: next_token_single_slash)
        next
          case True
          from skip_comment_lex [OF s2(3)] s2(2) obtain s3 where
            s3: "skip_comment s2 = Some (Inr (), s3)"
            "remaining (unget s3) = lex_comment cs2"
            "room (Suc k) (unget s3)" "line_num s3 = line_num s2" "same_cfg s2 s3" by auto
          from c2 s3(5) have c3: "same_cfg s (unget s3)" by (simp add: same_cfg_trans)
          have "length (lex_comment cs2) \<le> length cs2"
            by (simp add: lex_comment_def length_dropWhile_le)
          with s3(2) Cons inner have "length (remaining (unget s3)) < length (remaining s)"
            by simp
          from IH [OF this s3(3) c3] 3 True s1 s2 s3 Cons inner show ?thesis
            by (simp add: next_token_comment)
        qed
      qed
    next
      case 4
      from dispatch_lex [OF s1(3) 4] have "answers k s (dispatch c s1)
           (lex_token (string_bracket s1) (c # remaining s1) (line_num s1))"
        using s1(5) by (rule answers_trans [rotated])
      with 4 s1 Cons sb show ?thesis by (simp add: next_token_dispatch)
    qed
  qed
qed

subsection \<open>Consequences for one call and for several\<close>

lemma next_token_lexD:
  assumes "room (Suc k) s"
    and "lex_token (string_bracket s) (remaining s) (line_num s) = (a, n, rest)"
  shows "\<exists>s'. next_token s = Some (raised s' a, s') \<and> line_num s' = n \<and>
           remaining s' = rest \<and> room k s' \<and> (rest \<noteq> [] \<longrightarrow> room (Suc k) s') \<and>
           same_cfg s s'"
  using next_token_lex [OF assms(1)] assms(2) by (simp add: answers_def)

lemma raised_Configured:
  "same_cfg s s' \<Longrightarrow> line_num s' = n \<Longrightarrow>
     raised s' (Inl (Configured m)) = Inl (SyntaxErr (error_type s) m (filename s) (sint n))"
  by (simp add: raised_def mk_error_def same_cfg_def)

lemma next_token_lex_Inr:
  assumes "room (Suc k) s"
    and "lex_token (string_bracket s) (remaining s) (line_num s) = (Inr tok, n, rest)"
  shows "\<exists>s'. next_token s = Some (Inr tok, s') \<and> line_num s' = n \<and>
           remaining s' = rest \<and> room k s' \<and> (rest \<noteq> [] \<longrightarrow> room (Suc k) s') \<and>
           same_cfg s s'"
  using next_token_lexD [OF assms] by (simp add: raised_def)

lemma next_token_lex_Inl:
  assumes "room (Suc k) s"
    and "lex_token (string_bracket s) (remaining s) (line_num s) = (Inl (Configured m), n, rest)"
  shows "\<exists>s'. next_token s = Some (Inl (SyntaxErr (error_type s) m (filename s) (sint n)), s') \<and>
           line_num s' = n \<and> remaining s' = rest \<and> room k s' \<and>
           (rest \<noteq> [] \<longrightarrow> room (Suc k) s') \<and> same_cfg s s'"
proof -
  from next_token_lexD [OF assms] obtain s' where
    s': "next_token s = Some (raised s' (Inl (Configured m)), s')" "line_num s' = n"
    "remaining s' = rest" "room k s'" "rest \<noteq> [] \<longrightarrow> room (Suc k) s'" "same_cfg s s'"
    by blast
  from s'(1) raised_Configured [OF s'(6,2), of m] s'(2-6) show ?thesis by simp
qed

text \<open>Two tokenizers that differ in how the text is cut into chunks only.\<close>

definition same_text :: "nat \<Rightarrow> tokenizer \<Rightarrow> tokenizer \<Rightarrow> bool" where
  "same_text k s t \<longleftrightarrow> room k s \<and> room k t \<and> remaining s = remaining t \<and>
     line_num s = line_num t \<and> same_cfg s t"

lemma same_text_next_token:
  assumes "same_text (Suc k) s t"
  shows "\<exists>r s' t'. next_token s = Some (r, s') \<and> next_token t = Some (r, t') \<and>
           same_text k s' t'"
proof -
  obtain a n rest where l: "lex_token (string_bracket s) (remaining s) (line_num s) = (a, n, rest)"
    by (cases "lex_token (string_bracket s) (remaining s) (line_num s)")
  from assms have l': "lex_token (string_bracket t) (remaining t) (line_num t) = (a, n, rest)"
    using l by (simp add: same_text_def same_cfg_def)
  from assms have rs: "room (Suc k) s" and rt: "room (Suc k) t" and c: "same_cfg s t"
    by (simp_all add: same_text_def)
  from next_token_lexD [OF rs l] obtain s' where
    s': "next_token s = Some (raised s' a, s')" "line_num s' = n"
    "remaining s' = rest" "room k s'" "same_cfg s s'" by blast
  from next_token_lexD [OF rt l'] obtain t' where
    t': "next_token t = Some (raised t' a, t')" "line_num t' = n"
    "remaining t' = rest" "room k t'" "same_cfg t t'" by blast
  from c s'(5) t'(5) have cfg: "same_cfg s' t'" by (simp add: same_cfg_def)
  have "raised s' a = raised t' a"
  proof (cases a)
    case (Inl x)
    with cfg s'(2) t'(2) show ?thesis
      by (cases x) (simp_all add: raised_def mk_error_def same_cfg_def)
  next
    case (Inr tok)
    then show ?thesis by (simp add: raised_def)
  qed
  with s' t' cfg show ?thesis by (simp add: same_text_def)
qed

lemma same_text_next_tokens:
  "same_text (n + k) s t \<Longrightarrow>
     \<exists>rs s' t'. next_tokens n s = Some (rs, s') \<and> next_tokens n t = Some (rs, t') \<and>
        same_text k s' t'"
proof (induction n arbitrary: s t)
  case 0
  then show ?case by simp
next
  case (Suc n)
  from Suc.prems have "same_text (Suc (n + k)) s t" by simp
  from same_text_next_token [OF this] obtain r s1 t1 where
    a: "next_token s = Some (r, s1)" "next_token t = Some (r, t1)" "same_text (n + k) s1 t1"
    by blast
  from Suc.IH [OF a(3)] obtain rs s' t' where
    "next_tokens n s1 = Some (rs, s')" "next_tokens n t1 = Some (rs, t')" "same_text k s' t'"
    by blast
  with a show ?case by simp
qed

lemma chunks_text_Str [simp]: "chunks_text (map Str cs) = concat cs"
  by (induction cs) simp_all

lemma fits_Str_concat:
  "int (length (concat cs)) + int k \<le> 2147483648 \<Longrightarrow> list_all (fits k) (map Str cs)"
  by (induction cs) (simp_all add: fits_def)

lemma Tokenizer_init_same_text:
  assumes "Tokenizer_init (IterData None (map Str chunks)) fname err sb = Inr s"
    and "Tokenizer_init (StrData (concat chunks)) fname err sb = Inr t"
    and "int (length (concat chunks)) + int k \<le> 2147483648"
  shows "same_text k s t"
proof -
  from assms(3) have "list_all (fits k) (map Str chunks)" by (rule fits_Str_concat)
  with assms show ?thesis
    by (auto simp: Tokenizer_init_def same_text_def room_def remaining_def same_cfg_def
          split: option.splits if_splits)
qed

lemma lex_quoted_kind: "lex_quoted cs v n = (Inr (k, x), n', rest) \<Longrightarrow> k = STRING"
proof (induction cs v n rule: lex_quoted.induct)
  case (1 v n)
  then show ?case by simp
next
  case (2 c cs v n)
  show ?case
  proof (cases "c = backslash")
    case True
    with "2.prems" "2.IH"(2) show ?thesis by (cases cs) simp_all
  next
    case False
    with "2.prems" "2.IH"(1,3) show ?thesis by (simp split: if_splits)
  qed
qed

lemma lex_flag_kind: "lex_flag cs v n = (Inr (k, x), n', rest) \<Longrightarrow> k = PROP_FLAG"
  by (induction cs v n rule: lex_flag.induct) (simp_all split: if_splits)

lemma lex_paren_kind: "lex_paren cs v n = (Inr (k, x), n', rest) \<Longrightarrow> k = PAREN_ARGS"
  by (induction cs v n rule: lex_paren.induct) (simp_all split: if_splits)

lemma lex_bare_kind: "lex_bare cs v n = (Inr (k, x), n', rest) \<Longrightarrow> k = STRING"
  by (induction cs v n rule: lex_bare.induct) (simp_all split: if_splits)

lemma lex_token_EOF:
  "lex_token sb cs n = (Inr (EOF, x), n', rest) \<Longrightarrow> rest = [] \<and> n' = n \<and> x = None"
proof (induction sb cs n rule: lex_token.induct)
  case (1 sb n)
  then show ?case by simp
next
  case (2 sb c cs n)
  consider (blank) "c = CHR '' '' \<or> c = tab" | (slash) "c = CHR ''/''"
    | (other) "c \<noteq> CHR '' ''" "c \<noteq> tab" "c \<noteq> CHR ''/''" by blast
  then show ?case
  proof cases
    case blank
    with "2.prems" have "lex_token sb cs n = (Inr (EOF, x), n', rest)" by auto
    with blank "2.IH"(1) show ?thesis by auto
  next
    case slash
    show ?thesis
    proof (cases cs)
      case Nil
      with slash "2.prems" show ?thesis by simp
    next
      case (Cons c2 cs2)
      show ?thesis
      proof (cases "c2 = CHR ''/''")
        case True
        with slash Cons "2.prems" have "lex_token sb (lex_comment cs2) n = (Inr (EOF, x), n', rest)"
          by simp
        with slash Cons True "2.IH"(2) show ?thesis by simp
      next
        case False
        with slash Cons "2.prems" show ?thesis by simp
      qed
    qed
  next
    case other
    have "k \<noteq> EOF" if "lex_token sb (c # cs) n = (Inr (k, y), m, r)" for k y m r
      using that other
      by (auto split: if_splits
            dest: lex_quoted_kind lex_flag_kind lex_paren_kind lex_bare_kind)
    with "2.prems" show ?thesis by blast
  qed
qed


text \<open>
  At the end of the input every call adds one to the index, for as long as the index
  has not reached the largest value of its type.
\<close>

lemma eof_call:
  assumes "chunk_iter s = []" "int (length (cur_chunk s)) \<le> sint (char_index s) + 1"
    and "sint (char_index s) < 2147483647"
  shows "next_token s = Some (Inr (EOF, None), s\<lparr>char_index := char_index s + 1\<rparr>)"
proof -
  from assms(3) have "sint (char_index s + 1) = sint (char_index s) + 1" by (rule sint_succ)
  with assms(1,2) have "next_char s = (Inr None, s\<lparr>char_index := char_index s + 1\<rparr>)"
    by (simp add: next_char_def Let_def)
  then show ?thesis by (rule next_token_None)
qed

lemma eof_calls:
  "chunk_iter s = [] \<Longrightarrow> int (length (cur_chunk s)) \<le> sint (char_index s) + 1 \<Longrightarrow>
   sint (char_index s) + int n < 2147483648 \<Longrightarrow>
     next_tokens n s =
       Some (replicate n (Inr (EOF, None)), s\<lparr>char_index := char_index s + of_nat n\<rparr>)"
proof (induction n arbitrary: s)
  case 0
  then show ?case by simp
next
  case (Suc n)
  from Suc.prems(3) have lt: "sint (char_index s) < 2147483647" by simp
  then have sc: "sint (char_index s + 1) = sint (char_index s) + 1" by (rule sint_succ)
  let ?s1 = "s\<lparr>char_index := char_index s + 1\<rparr>"
  from eof_call [OF Suc.prems(1,2) lt]
  have a: "next_token s = Some (Inr (EOF, None), ?s1)" .
  have "next_tokens n ?s1 =
      Some (replicate n (Inr (EOF, None)), ?s1\<lparr>char_index := char_index ?s1 + of_nat n\<rparr>)"
    using Suc.prems sc by (intro Suc.IH) simp_all
  with a show ?case by (simp add: add.assoc)
qed

lemma next_tokens_add:
  "next_tokens (m + n) s =
     (case next_tokens m s of
        None \<Rightarrow> None
      | Some (rs, s1) \<Rightarrow>
          (case next_tokens n s1 of
             None \<Rightarrow> None
           | Some (rs', s2) \<Rightarrow> Some (rs @ rs', s2)))"
  by (induction m arbitrary: s) (auto split: option.splits)

lemma next_tokens_snoc:
  "next_tokens (Suc n) s =
     (case next_tokens n s of
        None \<Rightarrow> None
      | Some (rs, s1) \<Rightarrow>
          (case next_token s1 of
             None \<Rightarrow> None
           | Some (r, s2) \<Rightarrow> Some (rs @ [r], s2)))"
  using next_tokens_add [of n 1 s] by (auto split: option.splits)

subsection \<open>Blanks, comments and bare words on the text\<close>

lemma lex_token_blanks:
  "set ws \<subseteq> {CHR '' '', tab} \<Longrightarrow> lex_token sb (ws @ cs) n = lex_token sb cs n"
  by (induction ws) auto

lemma lex_comment_body:
  "newline \<notin> set body \<Longrightarrow> rest = [] \<or> hd rest = newline \<Longrightarrow>
     lex_comment (body @ rest) = rest"
  by (cases rest) (auto simp: lex_comment_def dropWhile_append)

lemma lex_bare_word:
  "\<forall>x\<in>set w. x \<notin> set BARE_DISALLOWED \<Longrightarrow> rest = [] \<or> hd rest \<in> set BARE_DISALLOWED \<Longrightarrow>
     lex_bare (w @ rest) v n = (Inr (STRING, Some (v @ w)), n, rest)"
proof (induction w arbitrary: v)
  case Nil
  then show ?case by (cases rest) auto
next
  case (Cons a w)
  then show ?case by simp
qed

lemma string_bracket_update_simps [simp]:
  "room k (s\<lparr>string_bracket := b\<rparr>) = room k s"
  "wf_source (s\<lparr>string_bracket := b\<rparr>) = wf_source s"
  "remaining (s\<lparr>string_bracket := b\<rparr>) = remaining s"
  by (simp_all add: wf_source_def room_def remaining_def)

text \<open>
  The characters at which, by the specification, a bare word ends: double quote, single
  quote, braces, angle brackets, parentheses, semicolon, colon, square brackets,
  newline, tab and space.
\<close>

definition bare_word_end :: "char set" where
  "bare_word_end =
     {dquote, squote, CHR ''{'', CHR ''}'', CHR ''<'', CHR ''>'', CHR ''('', CHR '')'',
      CHR '';'', CHR '':'', CHR ''['', CHR '']'', newline, tab, CHR '' ''}"

lemma set_BARE_DISALLOWED: "set BARE_DISALLOWED = bare_word_end"
  by (auto simp: BARE_DISALLOWED_def bare_word_end_def)

text \<open>
  The decoding of a quoted string in the words of the specification: what an escape
  stands for, the decoded text of a string body, the bodies that a closing quote can
  follow (every quote in them is escaped, and no escape is cut off at their end), and
  the newlines of a body that are counted (all but those that an escape swallows).
\<close>

definition spec_escape :: "char \<Rightarrow> string" where
  "spec_escape e =
     (if e = CHR ''n'' then [newline]
      else if e = CHR ''t'' then [tab]
      else if e = newline then []
      else if e = dquote \<or> e = backslash \<or> e = CHR ''/'' then [e]
      else [backslash, e])"

fun spec_decode :: "string \<Rightarrow> string" where
  "spec_decode (c # e # cs) =
     (if c = backslash then spec_escape e @ spec_decode cs else c # spec_decode (e # cs))"
| "spec_decode cs = cs"

fun spec_string_body :: "string \<Rightarrow> bool" where
  "spec_string_body (c # e # cs) =
     (if c = backslash then spec_string_body cs else c \<noteq> dquote \<and> spec_string_body (e # cs))"
| "spec_string_body [c] = (c \<noteq> dquote \<and> c \<noteq> backslash)"
| "spec_string_body [] = True"

fun spec_body_lines :: "string \<Rightarrow> nat" where
  "spec_body_lines (c # e # cs) =
     (if c = backslash then spec_body_lines cs
      else (if c = newline then 1 else 0) + spec_body_lines (e # cs))"
| "spec_body_lines [c] = (if c = newline then 1 else 0)"
| "spec_body_lines [] = 0"

lemma escape_text_spec: "escape_text e = spec_escape e"
  by (simp add: escape_text_def spec_escape_def)

lemma lex_quoted_body:
  "spec_string_body body \<Longrightarrow>
     lex_quoted (body @ dquote # rest) v n =
       (Inr (STRING, Some (v @ spec_decode body)), n + of_nat (spec_body_lines body), rest)"
proof (induction body arbitrary: v n rule: spec_decode.induct)
  case (1 c e cs)
  show ?case
  proof (cases "c = backslash")
    case True
    with "1.prems" have "spec_string_body cs" by simp
    from "1.IH"(1) [OF True this] True show ?thesis by (simp add: escape_text_spec)
  next
    case False
    with "1.prems" have b: "spec_string_body (e # cs)" and q: "c \<noteq> dquote" by simp_all
    from "1.IH"(2) [OF False b] False q show ?thesis by simp
  qed
qed simp_all


subsection \<open>The newlines that are counted\<close>

text \<open>
  The newlines of the text consumed by one call that the line counter counts: when the
  token is a quoted string, the newlines of its body that no escape swallows; otherwise
  all of them. Blanks in front of the token hold no newline.
\<close>

definition counted_newlines :: "string \<Rightarrow> nat" where
  "counted_newlines consumed =
     (case dropWhile (\<lambda>c. c = CHR '' '' \<or> c = tab) consumed of
        [] \<Rightarrow> 0
      | c # body \<Rightarrow>
          if c = dquote then spec_body_lines body else count_list (c # body) newline)"

text \<open>
  The two errors that are raised right after a newline was read and before it is
  counted: a newline inside a property flag, and a newline right behind a single slash
  (which raises the single-slash error, as any character but a slash does).
\<close>

definition uncounted :: "exn + token \<Rightarrow> bool" where
  "uncounted r =
     (case r of
        Inl (SyntaxErr cls m f l) \<Rightarrow>
          m = ''Unexpected token NEWLINE!'' \<or> m = ''Single slash found!''
      | _ \<Rightarrow> False)"

definition lex_uncounted :: "lex_error + token \<Rightarrow> bool" where
  "lex_uncounted a \<longleftrightarrow> a = Inl (Configured ''Unexpected token NEWLINE!'') \<or>
     a = Inl (Configured ''Single slash found!'')"

lemma counted_newlines_simps:
  "counted_newlines [] = 0"
  "c = CHR '' '' \<or> c = tab \<Longrightarrow> counted_newlines (c # k) = counted_newlines k"
  "c \<noteq> CHR '' '' \<Longrightarrow> c \<noteq> tab \<Longrightarrow>
     counted_newlines (c # k) =
       (if c = dquote then spec_body_lines k else count_list (c # k) newline)"
  by (auto simp: counted_newlines_def)

lemma spec_body_lines_Cons:
  "c \<noteq> backslash \<Longrightarrow>
     spec_body_lines (c # k) = (if c = newline then 1 else 0) + spec_body_lines k"
  by (cases k) simp_all

lemma lex_paren_lines:
  "lex_paren cs v n = (a, n', rest) \<Longrightarrow>
     \<exists>k. cs = k @ rest \<and> n' = n + of_nat (count_list k newline) \<and> \<not> lex_uncounted a"
proof (induction cs v n rule: lex_paren.induct)
  case (1 v n)
  then show ?case by (auto simp: lex_uncounted_def)
next
  case (2 c cs v n)
  consider "c = CHR '')''" | "c = newline" | "c \<noteq> CHR '')''" "c \<noteq> newline" by blast
  then show ?case
  proof cases
    case 1
    with "2.prems" have "c # cs = [c] @ rest" "n' = n" "\<not> lex_uncounted a"
      by (auto simp: lex_uncounted_def)
    with 1 show ?thesis by (intro exI [of _ "[c]"]) simp
  next
    case 2
    with "2.prems" "2.IH"(1) obtain k where
      "cs = k @ rest" "n' = n + 1 + of_nat (count_list k newline)" "\<not> lex_uncounted a"
      by auto
    with 2 show ?thesis by (intro exI [of _ "c # k"]) simp
  next
    case 3
    with "2.prems" "2.IH"(2) obtain k where
      "cs = k @ rest" "n' = n + of_nat (count_list k newline)" "\<not> lex_uncounted a"
      by auto
    with 3 show ?thesis by (intro exI [of _ "c # k"]) simp
  qed
qed

lemma lex_flag_lines:
  "lex_flag cs v n = (a, n', rest) \<Longrightarrow>
     \<exists>k. cs = k @ rest \<and> n' = n \<and> (\<not> lex_uncounted a \<longrightarrow> count_list k newline = 0)"
proof (induction cs v n rule: lex_flag.induct)
  case (1 v n)
  then show ?case by auto
next
  case (2 c cs v n)
  consider "c = CHR '']''" | "c = newline" | "c \<noteq> CHR '']''" "c \<noteq> newline" by blast
  then show ?case
  proof cases
    case 1
    with "2.prems" have "c # cs = [c] @ rest" "n' = n" by auto
    with 1 show ?thesis by (intro exI [of _ "[c]"]) simp
  next
    case 2
    with "2.prems" have "c # cs = [c] @ rest" "n' = n" "lex_uncounted a"
      by (auto simp: lex_uncounted_def)
    then show ?thesis by (intro exI [of _ "[c]"]) simp
  next
    case 3
    with "2.prems" "2.IH" obtain k where
      "cs = k @ rest" "n' = n" "\<not> lex_uncounted a \<longrightarrow> count_list k newline = 0"
      by auto
    with 3 show ?thesis by (intro exI [of _ "c # k"]) simp
  qed
qed

lemma newline_BARE_DISALLOWED: "newline \<in> set BARE_DISALLOWED"
  by (simp add: BARE_DISALLOWED_def)

lemma lex_bare_lines:
  "lex_bare cs v n = (a, n', rest) \<Longrightarrow>
     \<exists>k. cs = k @ rest \<and> n' = n \<and> count_list k newline = 0 \<and> \<not> lex_uncounted a"
proof (induction cs v n rule: lex_bare.induct)
  case (1 v n)
  then show ?case by (auto simp: lex_uncounted_def)
next
  case (2 c cs v n)
  show ?case
  proof (cases "c \<in> set BARE_DISALLOWED")
    case True
    with "2.prems" have "c # cs = [] @ rest" "n' = n" "\<not> lex_uncounted a"
      by (auto simp: lex_uncounted_def)
    then show ?thesis by (intro exI [of _ "[]"]) simp
  next
    case False
    with newline_BARE_DISALLOWED have nl: "c \<noteq> newline" by auto
    from False "2.prems" "2.IH" obtain k where
      "cs = k @ rest" "n' = n" "count_list k newline = 0" "\<not> lex_uncounted a"
      by auto
    with nl show ?thesis by (intro exI [of _ "c # k"]) simp
  qed
qed

lemma lex_quoted_lines:
  "lex_quoted cs v n = (a, n', rest) \<Longrightarrow>
     \<exists>k. cs = k @ rest \<and> n' = n + of_nat (spec_body_lines k) \<and> \<not> lex_uncounted a"
proof (induction cs v n rule: lex_quoted.induct)
  case (1 v n)
  then show ?case by (auto simp: lex_uncounted_def)
next
  case (2 c cs v n)
  consider "c = dquote" | "c = newline" | "c = backslash"
    | "c \<noteq> dquote" "c \<noteq> newline" "c \<noteq> backslash" by blast
  then show ?case
  proof cases
    case 1
    with "2.prems" have "c # cs = [c] @ rest" "n' = n" "\<not> lex_uncounted a"
      by (auto simp: lex_uncounted_def)
    with 1 show ?thesis by (intro exI [of _ "[c]"]) simp
  next
    case 2
    with "2.prems" "2.IH"(1) obtain k where
      "cs = k @ rest" "n' = n + 1 + of_nat (spec_body_lines k)" "\<not> lex_uncounted a"
      by auto
    with 2 show ?thesis by (intro exI [of _ "c # k"]) (simp add: spec_body_lines_Cons)
  next
    case 3
    show ?thesis
    proof (cases cs)
      case Nil
      with 3 "2.prems" have "c # cs = [c] @ rest" "n' = n" "\<not> lex_uncounted a"
        by (auto simp: lex_uncounted_def)
      with 3 show ?thesis by (intro exI [of _ "[c]"]) simp
    next
      case (Cons e cs')
      with 3 "2.prems" "2.IH"(2) obtain k where
        "cs' = k @ rest" "n' = n + of_nat (spec_body_lines k)" "\<not> lex_uncounted a"
        by auto
      with 3 Cons show ?thesis by (intro exI [of _ "c # e # k"]) simp
    qed
  next
    case 4
    with "2.prems" "2.IH"(3) obtain k where
      "cs = k @ rest" "n' = n + of_nat (spec_body_lines k)" "\<not> lex_uncounted a"
      by auto
    with 4 show ?thesis by (intro exI [of _ "c # k"]) (simp add: spec_body_lines_Cons)
  qed
qed

lemma lex_token_lines:
  "lex_token sb cs n = (a, n', rest) \<Longrightarrow>
     \<exists>k. cs = k @ rest \<and>
       n' = n + (if lex_uncounted a then 0 else of_nat (counted_newlines k))"
proof (induction sb cs n rule: lex_token.induct)
  case (1 sb n)
  then show ?case by (auto simp: counted_newlines_simps)
next
  case (2 sb c cs n)
  consider (nl) "c = newline" | (blank) "c = CHR '' '' \<or> c = tab" | (slash) "c = CHR ''/''"
    | (quote) "c = dquote" | (flag) "c = CHR ''[''" "sb" | (paren) "c = CHR ''(''"
    | (single) "c \<in> set ''{}:+=]'' \<or> c = CHR ''['' \<and> \<not> sb"
    | (bare) "c \<notin> set BARE_DISALLOWED" "c \<notin> set ''{}:+=]''" "c \<noteq> newline"
        "c \<noteq> CHR '' ''" "c \<noteq> tab" "c \<noteq> CHR ''/''" "c \<noteq> dquote" "c \<noteq> CHR ''[''"
        "c \<noteq> CHR ''(''"
    | (bad) "c \<in> set BARE_DISALLOWED" "c \<notin> set ''{}:+=]''" "c \<noteq> newline"
        "c \<noteq> CHR '' ''" "c \<noteq> tab" "c \<noteq> CHR ''/''" "c \<noteq> dquote" "c \<noteq> CHR ''[''"
        "c \<noteq> CHR ''(''"
    by blast
  then show ?case
  proof cases
    case nl
    with "2.prems" have "c # cs = [c] @ rest" "n' = n + 1" "\<not> lex_uncounted a"
      by (auto simp: lex_uncounted_def)
    with nl show ?thesis
      by (intro exI [of _ "[c]"]) (simp add: counted_newlines_simps)
  next
    case blank
    with "2.prems" have "lex_token sb cs n = (a, n', rest)" by auto
    with blank "2.IH"(1) obtain k where
      "cs = k @ rest" "n' = n + (if lex_uncounted a then 0 else of_nat (counted_newlines k))"
      by auto
    with blank show ?thesis
      by (intro exI [of _ "c # k"]) (auto simp add: counted_newlines_simps)
  next
    case slash
    show ?thesis
    proof (cases cs)
      case Nil
      with slash "2.prems" have "c # cs = [c] @ rest" "n' = n" "lex_uncounted a"
        by (auto simp: lex_uncounted_def)
      then show ?thesis by (intro exI [of _ "[c]"]) simp
    next
      case (Cons c2 cs2)
      show ?thesis
      proof (cases "c2 = CHR ''/''")
        case False
        with slash Cons "2.prems" have "c # cs = [c, c2] @ rest" "n' = n" "lex_uncounted a"
          by (auto simp: lex_uncounted_def)
        then show ?thesis by (intro exI [of _ "[c, c2]"]) simp
      next
        case True
        let ?body = "takeWhile (\<lambda>x. x \<noteq> newline) cs2"
        have split: "cs2 = ?body @ lex_comment cs2" by (simp add: lex_comment_def)
        have body: "count_list ?body newline = 0"
          by (auto simp: count_list_0_iff dest: set_takeWhileD)
        from True slash Cons "2.prems"
        have r: "lex_token sb (lex_comment cs2) n = (a, n', rest)" by simp
        show ?thesis
        proof (cases "lex_comment cs2")
          case Nil
          with r have e: "rest = []" "n' = n" "\<not> lex_uncounted a"
            by (auto simp: lex_uncounted_def)
          from split Nil have "cs2 = ?body" by simp
          with slash Cons True e(1) have "c # cs = (c # c2 # ?body) @ rest" by simp
          moreover from slash True body
          have "counted_newlines (c # c2 # ?body) = 0" by (simp add: counted_newlines_simps)
          ultimately show ?thesis using e(2,3) by (intro exI [of _ "c # c2 # ?body"]) simp
        next
          case inner: (Cons d ds)
          have "d = newline"
            using inner hd_dropWhile [of "\<lambda>x. x \<noteq> newline" cs2]
            by (auto simp: lex_comment_def)
          with r inner have e: "rest = ds" "n' = n + 1" "\<not> lex_uncounted a"
            by (auto simp: lex_uncounted_def)
          from split inner \<open>d = newline\<close> have "cs2 = ?body @ newline # ds" by simp
          with slash Cons True e(1)
          have "c # cs = (c # c2 # ?body @ [newline]) @ rest" by simp
          moreover from slash True body
          have "counted_newlines (c # c2 # ?body @ [newline]) = 1"
            by (simp add: counted_newlines_simps)
          ultimately show ?thesis using e(2,3)
            by (intro exI [of _ "c # c2 # ?body @ [newline]"]) simp
        qed
      qed
    qed
  next
    case quote
    with "2.prems" have "lex_quoted cs [] n = (a, n', rest)" by simp
    from lex_quoted_lines [OF this] obtain k where
      "cs = k @ rest" "n' = n + of_nat (spec_body_lines k)" "\<not> lex_uncounted a" by blast
    with quote show ?thesis
      by (intro exI [of _ "c # k"]) (simp add: counted_newlines_simps)
  next
    case flag
    with "2.prems" have "lex_flag cs [] n = (a, n', rest)" by simp
    from lex_flag_lines [OF this] obtain k where
      "cs = k @ rest" "n' = n" "\<not> lex_uncounted a \<longrightarrow> count_list k newline = 0" by blast
    with flag show ?thesis
      by (intro exI [of _ "c # k"]) (simp add: counted_newlines_simps)
  next
    case paren
    with "2.prems" have "lex_paren cs [] n = (a, n', rest)" by simp
    from lex_paren_lines [OF this] obtain k where
      "cs = k @ rest" "n' = n + of_nat (count_list k newline)" "\<not> lex_uncounted a" by blast
    with paren show ?thesis
      by (intro exI [of _ "c # k"]) (simp add: counted_newlines_simps)
  next
    case single
    with "2.prems" have "c # cs = [c] @ rest" "n' = n" "\<not> lex_uncounted a"
      by (auto simp: lex_uncounted_def)
    with single show ?thesis
      by (intro exI [of _ "[c]"]) (auto simp add: counted_newlines_simps)
  next
    case bare
    with "2.prems" have "lex_bare cs [c] n = (a, n', rest)" by simp
    from lex_bare_lines [OF this] obtain k where
      "cs = k @ rest" "n' = n" "count_list k newline = 0" "\<not> lex_uncounted a" by blast
    with bare(3,4,5,7) show ?thesis
      by (intro exI [of _ "c # k"]) (simp add: counted_newlines_simps)
  next
    case bad
    with "2.prems" have "c # cs = [c] @ rest" "n' = n" "\<not> lex_uncounted a"
      by (auto simp: lex_uncounted_def)
    with bad(3,4,5,7) show ?thesis
      by (intro exI [of _ "[c]"]) (simp add: counted_newlines_simps)
  qed
qed

lemma lex_quoted_Builtin:
  "lex_quoted cs v n = (Inl (Builtin e), n', rest) \<Longrightarrow> e = chr_out_of_range \<and> rest = []"
proof (induction cs v n rule: lex_quoted.induct)
  case (1 v n)
  then show ?case by simp
next
  case (2 c cs v n)
  show ?case
  proof (cases "c = backslash")
    case True
    with "2.prems" "2.IH"(2) show ?thesis by (cases cs) simp_all
  next
    case False
    with "2.prems" "2.IH"(1,3) show ?thesis by (simp split: if_splits)
  qed
qed

lemma lex_flag_Configured: "lex_flag cs v n = (Inl x, n', rest) \<Longrightarrow> \<exists>m. x = Configured m"
  by (induction cs v n rule: lex_flag.induct) (auto split: if_splits)

lemma lex_paren_Configured: "lex_paren cs v n = (Inl x, n', rest) \<Longrightarrow> \<exists>m. x = Configured m"
  by (induction cs v n rule: lex_paren.induct) (auto split: if_splits)

lemma lex_bare_Inr: "lex_bare cs v n = (Inl x, n', rest) \<Longrightarrow> False"
  by (induction cs v n rule: lex_bare.induct) (auto split: if_splits)

lemma lex_token_Builtin:
  "lex_token sb cs n = (Inl (Builtin e), n', rest) \<Longrightarrow> e = chr_out_of_range \<and> rest = []"
proof (induction sb cs n rule: lex_token.induct)
  case (1 sb n)
  then show ?case by simp
next
  case (2 sb c cs n)
  consider (blank) "c = CHR '' '' \<or> c = tab" | (slash) "c = CHR ''/''"
    | (other) "c \<noteq> CHR '' ''" "c \<noteq> tab" "c \<noteq> CHR ''/''" by blast
  then show ?case
  proof cases
    case blank
    with "2.prems" have "lex_token sb cs n = (Inl (Builtin e), n', rest)" by auto
    with blank "2.IH"(1) show ?thesis by auto
  next
    case slash
    show ?thesis
    proof (cases cs)
      case Nil
      with slash "2.prems" show ?thesis by simp
    next
      case (Cons c2 cs2)
      show ?thesis
      proof (cases "c2 = CHR ''/''")
        case True
        with slash Cons "2.prems"
        have "lex_token sb (lex_comment cs2) n = (Inl (Builtin e), n', rest)" by simp
        with slash Cons True "2.IH"(2) show ?thesis by simp
      next
        case False
        with slash Cons "2.prems" show ?thesis by simp
      qed
    qed
  next
    case other
    with "2.prems" show ?thesis
      by (auto split: if_splits
            dest: lex_quoted_Builtin lex_flag_Configured lex_paren_Configured lex_bare_Inr)
  qed
qed


lemma uncounted_raised [simp]:
  "uncounted (raised s' (Inl (Configured m))) = lex_uncounted (Inl (Configured m))"
  "uncounted (raised s' (Inl (Builtin chr_out_of_range))) = False"
  "uncounted (raised s' (Inr t)) = False"
  "lex_uncounted (Inl (Builtin e)) = False"
  "lex_uncounted (Inr t) = False"
  by (simp_all add: uncounted_def raised_def lex_uncounted_def mk_error_def
      chr_out_of_range_def)

subsection \<open>What a call raises, and the loop of \<^verbatim>\<open>expect\<close>\<close>









text \<open>
  At the end of the input a call returns EOF and moves the index by at most one, for as
  long as the index has not reached the largest value of its type.
\<close>

lemma room_D: "room k s \<Longrightarrow> - 1 \<le> sint (char_index s) \<and> list_all is_str (chunk_iter s)"
  by (auto simp: room_def list_all_iff fits_def)

lemma skip_empty_chunks_end:
  "list_all is_str cs \<Longrightarrow> chunks_text cs = [] \<Longrightarrow> skip_empty_chunks cs = (Inr None, [])"
  by (induction cs rule: skip_empty_chunks.induct) auto

lemma at_end_call:
  assumes "remaining s = []" "- 1 \<le> sint (char_index s)" "list_all is_str (chunk_iter s)"
    and "sint (char_index s) < 2147483647"
  shows "\<exists>s1. next_token s = Some (Inr (EOF, None), s1) \<and> remaining s1 = [] \<and>
           - 1 \<le> sint (char_index s1) \<and> sint (char_index s1) \<le> sint (char_index s) + 1 \<and>
           list_all is_str (chunk_iter s1) \<and> line_num s1 = line_num s \<and>
           filename s1 = filename s"
proof -
  from assms(4) have sc: "sint (char_index s + 1) = sint (char_index s) + 1" by (rule sint_succ)
  from assms(1,2) have len: "int (length (cur_chunk s)) \<le> sint (char_index s) + 1"
    and empty: "chunks_text (chunk_iter s) = []"
    by (auto simp add: remaining_def)
  have "\<exists>s1. next_char s = (Inr None, s1) \<and> remaining s1 = [] \<and>
           - 1 \<le> sint (char_index s1) \<and> sint (char_index s1) \<le> sint (char_index s) + 1 \<and>
           list_all is_str (chunk_iter s1) \<and> line_num s1 = line_num s \<and>
           filename s1 = filename s"
  proof (cases "chunk_iter s")
    case Nil
    with len sc assms(2) show ?thesis
      by (simp add: next_char_def Let_def remaining_def)
  next
    case (Cons ch rest)
    with assms(3) empty obtain c where ch: "ch = Str c" "c = []"
      and rest: "list_all is_str rest" "chunks_text rest = []"
      by (cases ch) simp_all
    from skip_empty_chunks_end [OF rest] Cons ch len sc assms(2) show ?thesis
      by (simp add: next_char_def Let_def remaining_def)
  qed
  then obtain s1 where "next_char s = (Inr None, s1)" and r: "remaining s1 = []"
    "- 1 \<le> sint (char_index s1)" "sint (char_index s1) \<le> sint (char_index s) + 1"
    "list_all is_str (chunk_iter s1)" "line_num s1 = line_num s" "filename s1 = filename s"
    by blast
  from next_token_None [OF this(1)] r show ?thesis by blast
qed

lemma at_end_calls:
  "remaining s = [] \<Longrightarrow> - 1 \<le> sint (char_index s) \<Longrightarrow> list_all is_str (chunk_iter s) \<Longrightarrow>
   sint (char_index s) + int n < 2147483648 \<Longrightarrow>
     \<exists>s'. next_tokens n s = Some (replicate n (Inr (EOF, None)), s') \<and>
       line_num s' = line_num s \<and> filename s' = filename s"
proof (induction n arbitrary: s)
  case 0
  then show ?case by simp
next
  case (Suc n)
  from Suc.prems(4) have "sint (char_index s) < 2147483647" by simp
  from at_end_call [OF Suc.prems(1-3) this] obtain s1 where
    s1: "next_token s = Some (Inr (EOF, None), s1)" "remaining s1 = []"
    "- 1 \<le> sint (char_index s1)" "sint (char_index s1) \<le> sint (char_index s) + 1"
    "list_all is_str (chunk_iter s1)" "line_num s1 = line_num s" "filename s1 = filename s"
    by blast
  from s1(4) Suc.prems(4) have "sint (char_index s1) + int n < 2147483648" by simp
  from Suc.IH [OF s1(2,3,5) this] obtain s' where
    "next_tokens n s1 = Some (replicate n (Inr (EOF, None)), s')"
    "line_num s' = line_num s1" "filename s' = filename s1" by blast
  with s1 show ?case by simp
qed

section \<open>The claims\<close>

text \<open>
  Examples start from the constructor: \<open>projr\<close> takes the tokenizer out of a
  construction that did not raise, and \<open>map_option fst\<close> the result out of a call that
  returned.
\<close>

text \<open>
  C5, as stated: when \<^verbatim>\<open>expect\<close> succeeds it returns the value of the token it matched.
  It does not: on the input \<^verbatim>\<open>hello\<close> the next token is STRING with the value
  \<^verbatim>\<open>hello\<close>, and \<^verbatim>\<open>expect(Token.STRING)\<close> succeeds and returns \<^verbatim>\<open>None\<close>.
\<close>

theorem expect_value_counterexample:
  "map_option fst (next_token (projr (Tokenizer_init (StrData ''hello'') None None False)))
     = Some (Inr (STRING, Some ''hello'')) \<and>
   map_option fst (expect STRING True (projr (Tokenizer_init (StrData ''hello'') None None False)))
     = Some (Inr None)"
  by code_simp

text \<open>
  C5, amended: whenever \<^verbatim>\<open>expect\<close> succeeds its result is \<^verbatim>\<open>None\<close>; the value of the
  matched token is dropped.
\<close>

theorem expect_result_None:
  "expect tok skip_newline s = Some (Inr v, s') \<Longrightarrow> v = None"
  by (auto simp: expect_def Let_def split: option.splits prod.splits sum.splits if_splits)

theorem expect_result_None_witness:
  "\<exists>v s'. expect STRING True (projr (Tokenizer_init (StrData ''hello'') None None False))
            = Some (Inr v, s') \<and> v = None"
proof -
  have "map_option fst (expect STRING True
          (projr (Tokenizer_init (StrData ''hello'') None None False))) = Some (Inr None)"
    by code_simp
  then obtain s' where h: "expect STRING True
      (projr (Tokenizer_init (StrData ''hello'') None None False)) = Some (Inr None, s')"
    by auto
  from expect_result_None [OF h] h show ?thesis by blast
qed


text \<open>
  C1, as stated: a tokenizer built from chunks and one built from their concatenation
  return the same sequence of tokens however often \<^verbatim>\<open>next_token\<close> is called. They do
  not: the index \<^verbatim>\<open>char_index\<close> is a C \<^verbatim>\<open>int\<close>, every call at the end of the input adds
  one to it, and the two tokenizers reach the end with different indices. For the
  chunks \<^verbatim>\<open>a\<close>, \<^verbatim>\<open>b\<close> the index is 1 after the first call, and the next 2147483646 calls
  return EOF; for the string \<^verbatim>\<open>ab\<close> it is 2 after the first call, so that the last of
  these calls finds the index at 2147483647, wraps it around to -2147483648 and raises
  \<^verbatim>\<open>IndexError\<close> from \<^verbatim>\<open>self.cur_chunk[self.char_index]\<close>.
\<close>

theorem chunking_counterexample:
  "map_option fst (next_tokens 2147483647
      (projr (Tokenizer_init (IterData None [Str ''a'', Str ''b'']) None None False)))
     = Some (Inr (STRING, Some ''ab'') # replicate 2147483646 (Inr (EOF, None))) \<and>
   map_option fst (next_tokens 2147483647
      (projr (Tokenizer_init (StrData ''ab'') None None False)))
     = Some (Inr (STRING, Some ''ab'') # replicate 2147483645 (Inr (EOF, None)) @
             [Inl (IndexError ''string index out of range'')])"
proof
  let ?s = "\<lparr>cur_chunk = [], chunk_iter = [Str ''a'', Str ''b''], char_index = - 1 :: c_int,
       error_type = TokenSyntaxError, filename = [], line_num = 1 :: c_int,
       string_bracket = False\<rparr>"
  let ?s1 = "\<lparr>cur_chunk = ''b'', chunk_iter = [], char_index = 1 :: c_int,
       error_type = TokenSyntaxError, filename = [], line_num = 1 :: c_int,
       string_bracket = False\<rparr>"
  have i: "projr (Tokenizer_init (IterData None [Str ''a'', Str ''b'']) None None False) = ?s"
    by (simp add: Tokenizer_init_def)
  have a: "next_token ?s = Some (Inr (STRING, Some ''ab''), ?s1)"
    by (simp add: next_token.simps read_bare.simps next_char_def getitem_def
          BARE_DISALLOWED_def)
  have b: "next_tokens 2147483646 ?s1 =
      Some (replicate 2147483646 (Inr (EOF, None)),
            ?s1\<lparr>char_index := char_index ?s1 + of_nat 2147483646\<rparr>)"
    by (rule eof_calls) simp_all
  have "map_option fst (next_tokens (Suc 2147483646) ?s)
     = Some (Inr (STRING, Some ''ab'') # replicate 2147483646 (Inr (EOF, None)))"
    using a b by (subst next_tokens.simps) simp
  with i show "map_option fst (next_tokens 2147483647
      (projr (Tokenizer_init (IterData None [Str ''a'', Str ''b'']) None None False)))
     = Some (Inr (STRING, Some ''ab'') # replicate 2147483646 (Inr (EOF, None)))"
    by simp
next
  let ?t = "\<lparr>cur_chunk = ''ab'', chunk_iter = [], char_index = - 1 :: c_int,
       error_type = TokenSyntaxError, filename = [], line_num = 1 :: c_int,
       string_bracket = False\<rparr>"
  let ?t1 = "\<lparr>cur_chunk = ''ab'', chunk_iter = [], char_index = 2 :: c_int,
       error_type = TokenSyntaxError, filename = [], line_num = 1 :: c_int,
       string_bracket = False\<rparr>"
  let ?t2 = "\<lparr>cur_chunk = ''ab'', chunk_iter = [], char_index = 2147483647 :: c_int,
       error_type = TokenSyntaxError, filename = [], line_num = 1 :: c_int,
       string_bracket = False\<rparr>"
  let ?t3 = "\<lparr>cur_chunk = ''ab'', chunk_iter = [], char_index = - 2147483648 :: c_int,
       error_type = TokenSyntaxError, filename = [], line_num = 1 :: c_int,
       string_bracket = False\<rparr>"
  have i: "projr (Tokenizer_init (StrData ''ab'') None None False) = ?t"
    by (simp add: Tokenizer_init_def)
  have a: "next_token ?t = Some (Inr (STRING, Some ''ab''), ?t1)"
    by (simp add: next_token.simps read_bare.simps next_char_def getitem_def
          BARE_DISALLOWED_def)
  have b: "next_tokens 2147483645 ?t1 =
      Some (replicate 2147483645 (Inr (EOF, None)),
            ?t1\<lparr>char_index := char_index ?t1 + of_nat 2147483645\<rparr>)"
    by (rule eof_calls) simp_all
  have c: "next_token ?t2 = Some (Inl (IndexError ''string index out of range''), ?t3)"
    by (simp add: next_token.simps next_char_def getitem_def)
  have d: "next_tokens (Suc 2147483645) ?t1 =
      Some (replicate 2147483645 (Inr (EOF, None)) @
              [Inl (IndexError ''string index out of range'')], ?t3)"
    using b c by (subst next_tokens_snoc) simp
  have "map_option fst (next_tokens (Suc 2147483646) ?t)
     = Some (Inr (STRING, Some ''ab'') # replicate 2147483645 (Inr (EOF, None)) @
             [Inl (IndexError ''string index out of range'')])"
    using a d by (subst next_tokens.simps) simp
  with i show "map_option fst (next_tokens 2147483647
      (projr (Tokenizer_init (StrData ''ab'') None None False)))
     = Some (Inr (STRING, Some ''ab'') # replicate 2147483645 (Inr (EOF, None)) @
             [Inl (IndexError ''string index out of range'')])"
    by simp
qed

text \<open>
  C1, amended: a tokenizer built from a sequence of string chunks and a tokenizer built
  from their concatenation as one string return the same results for the first \<open>n\<close>
  calls, and have the same line number after them, as long as the length of the text
  and \<open>n\<close> together do not exceed \<open>2^31\<close>, so that the index cannot wrap around. (The
  chunks need not even be non-empty. A result is a token or the exception raised; both
  tokenizers are built with the same file name, error type and bracket mode.)
\<close>

theorem chunking_invariance:
  assumes "Tokenizer_init (IterData None (map Str chunks)) fname err sb = Inr s"
    and "Tokenizer_init (StrData (concat chunks)) fname err sb = Inr t"
    and "int (length (concat chunks)) + int n \<le> 2147483648"
  shows "\<exists>rs s' t'. next_tokens n s = Some (rs, s') \<and> next_tokens n t = Some (rs, t') \<and>
           line_num s' = line_num t'"
proof -
  from Tokenizer_init_same_text [OF assms] have "same_text (n + 0) s t" by simp
  from same_text_next_tokens [OF this] show ?thesis by (auto simp: same_text_def)
qed

theorem chunking_invariance_witness:
  "Tokenizer_init (IterData None (map Str [''ke'', ''y '', [dquote, CHR ''v'', newline], [dquote]])) None None False
     = Inr \<lparr>cur_chunk = [], chunk_iter = [Str ''ke'', Str ''y '', Str [dquote, CHR ''v'', newline], Str [dquote]],
            char_index = - 1, error_type = TokenSyntaxError, filename = [], line_num = 1,
            string_bracket = False\<rparr> \<and>
   Tokenizer_init (StrData (concat [''ke'', ''y '', [dquote, CHR ''v'', newline], [dquote]])) None None False
     = Inr \<lparr>cur_chunk = ''key '' @ [dquote, CHR ''v'', newline, dquote], chunk_iter = [],
            char_index = - 1, error_type = TokenSyntaxError, filename = [], line_num = 1,
            string_bracket = False\<rparr> \<and>
   int (length (concat [''ke'', ''y '', [dquote, CHR ''v'', newline], [dquote]])) + int 3
     \<le> 2147483648 \<and>
   map_option fst (next_tokens 3 \<lparr>cur_chunk = [], chunk_iter = [Str ''ke'', Str ''y '', Str [dquote, CHR ''v'', newline], Str [dquote]],
            char_index = - 1, error_type = TokenSyntaxError, filename = [], line_num = 1,
            string_bracket = False\<rparr>)
     = Some [Inr (STRING, Some ''key''), Inr (STRING, Some [CHR ''v'', newline]), Inr (EOF, None)] \<and>
   map_option fst (next_tokens 3 \<lparr>cur_chunk = ''key '' @ [dquote, CHR ''v'', newline, dquote], chunk_iter = [],
            char_index = - 1, error_type = TokenSyntaxError, filename = [], line_num = 1,
            string_bracket = False\<rparr>)
     = Some [Inr (STRING, Some ''key''), Inr (STRING, Some [CHR ''v'', newline]), Inr (EOF, None)]"
proof -
  let ?s = "\<lparr>cur_chunk = [], chunk_iter = [Str ''ke'', Str ''y '', Str [dquote, CHR ''v'', newline], Str [dquote]],
            char_index = - 1 :: c_int, error_type = TokenSyntaxError, filename = [],
            line_num = 1 :: c_int, string_bracket = False\<rparr>"
  let ?t = "\<lparr>cur_chunk = ''key '' @ [dquote, CHR ''v'', newline, dquote], chunk_iter = [],
            char_index = - 1 :: c_int, error_type = TokenSyntaxError, filename = [],
            line_num = 1 :: c_int, string_bracket = False\<rparr>"
  have a: "Tokenizer_init (IterData None (map Str [''ke'', ''y '', [dquote, CHR ''v'', newline], [dquote]])) None None False = Inr ?s"
    by (simp add: Tokenizer_init_def)
  have b: "Tokenizer_init (StrData (concat [''ke'', ''y '', [dquote, CHR ''v'', newline], [dquote]])) None None False = Inr ?t"
    by (simp add: Tokenizer_init_def)
  have l: "int (length (concat [''ke'', ''y '', [dquote, CHR ''v'', newline], [dquote]])) + int 3
     \<le> 2147483648" by simp
  have c: "map_option fst (next_tokens 3 ?t)
      = Some [Inr (STRING, Some ''key''), Inr (STRING, Some [CHR ''v'', newline]), Inr (EOF, None)]"
    by code_simp
  from chunking_invariance [OF a b l] a b l c show ?thesis by auto
qed

text \<open>
  C7, as stated: once \<^verbatim>\<open>next_token\<close> has returned EOF, every later call returns EOF.
  Not every one: each of these calls adds one to the index \<^verbatim>\<open>char_index\<close>, a C \<^verbatim>\<open>int\<close>.
  On the empty input the first call returns EOF and leaves the index at 0, the calls up
  to the 2147483648th return EOF, and the next one wraps the index around to
  -2147483648 and raises \<^verbatim>\<open>IndexError\<close>.
\<close>

theorem EOF_counterexample:
  "map_option fst (next_token (projr (Tokenizer_init (StrData []) None None False)))
     = Some (Inr (EOF, None)) \<and>
   map_option fst (next_tokens 2147483649
      (projr (Tokenizer_init (StrData []) None None False)))
     = Some (replicate 2147483648 (Inr (EOF, None)) @
             [Inl (IndexError ''string index out of range'')])"
proof
  show "map_option fst (next_token (projr (Tokenizer_init (StrData []) None None False)))
     = Some (Inr (EOF, None))" by code_simp
next
  let ?s = "\<lparr>cur_chunk = [], chunk_iter = [], char_index = - 1 :: c_int,
       error_type = TokenSyntaxError, filename = [], line_num = 1 :: c_int,
       string_bracket = False\<rparr>"
  let ?s2 = "\<lparr>cur_chunk = [], chunk_iter = [], char_index = 2147483647 :: c_int,
       error_type = TokenSyntaxError, filename = [], line_num = 1 :: c_int,
       string_bracket = False\<rparr>"
  let ?s3 = "\<lparr>cur_chunk = [], chunk_iter = [], char_index = - 2147483648 :: c_int,
       error_type = TokenSyntaxError, filename = [], line_num = 1 :: c_int,
       string_bracket = False\<rparr>"
  have i: "projr (Tokenizer_init (StrData []) None None False) = ?s"
    by (simp add: Tokenizer_init_def)
  have b: "next_tokens 2147483648 ?s =
      Some (replicate 2147483648 (Inr (EOF, None)),
            ?s\<lparr>char_index := char_index ?s + of_nat 2147483648\<rparr>)"
    by (rule eof_calls) simp_all
  have c: "next_token ?s2 = Some (Inl (IndexError ''string index out of range''), ?s3)"
    by (simp add: next_token.simps next_char_def getitem_def)
  have "map_option fst (next_tokens (Suc 2147483648) ?s) =
      Some (replicate 2147483648 (Inr (EOF, None)) @
              [Inl (IndexError ''string index out of range'')])"
    using b c by (subst next_tokens_snoc) simp
  with i show "map_option fst (next_tokens 2147483649
      (projr (Tokenizer_init (StrData []) None None False)))
     = Some (replicate 2147483648 (Inr (EOF, None)) @
             [Inl (IndexError ''string index out of range'')])"
    by simp
qed

text \<open>
  C7, amended: once \<^verbatim>\<open>next_token\<close> has returned EOF on a well-formed tokenizer, each of
  the next \<open>n\<close> calls returns EOF again, and the line number and the file name stay as
  that call left them, for every \<open>n\<close> that the index has room for: the index that the
  call left, plus \<open>n\<close>, is below \<open>2^31\<close>.
\<close>

theorem EOF_stable:
  assumes "wf_source s" "next_token s = Some (Inr (EOF, v), s')"
    and "sint (char_index s') + int n < 2147483648"
  shows "\<exists>s''. next_tokens n s' = Some (replicate n (Inr (EOF, None)), s'') \<and>
           line_num s'' = line_num s' \<and> filename s'' = filename s'"
proof -
  obtain a m rest where l: "lex_token (string_bracket s) (remaining s) (line_num s) = (a, m, rest)"
    by (cases "lex_token (string_bracket s) (remaining s) (line_num s)")
  from assms(1) have "room (Suc 1) s" by (simp add: wf_source_def numeral_2_eq_2)
  from next_token_lexD [OF this l] assms(2)
  have r: "raised s' a = Inr (EOF, v)" "remaining s' = rest" "room 1 s'" by auto
  from r(1) have "a = Inr (EOF, v)" by (cases a) (simp_all add: raised_def)
  with l r(2) have e: "remaining s' = []" by (auto dest: lex_token_EOF)
  from room_D [OF r(3)] have "- 1 \<le> sint (char_index s')" "list_all is_str (chunk_iter s')"
    by simp_all
  from at_end_calls [OF e this assms(3)] show ?thesis .
qed

theorem EOF_stable_witness:
  "wf_source \<lparr>cur_chunk = ''a //'', chunk_iter = [Str []], char_index = 0,
       error_type = TokenSyntaxError, filename = ''f.vmt'', line_num = 1,
       string_bracket = False\<rparr> \<and>
   next_token \<lparr>cur_chunk = ''a //'', chunk_iter = [Str []], char_index = 0,
       error_type = TokenSyntaxError, filename = ''f.vmt'', line_num = 1,
       string_bracket = False\<rparr>
     = Some (Inr (EOF, None),
         \<lparr>cur_chunk = [], chunk_iter = [], char_index = 0,
          error_type = TokenSyntaxError, filename = ''f.vmt'', line_num = 1,
          string_bracket = False\<rparr>) \<and>
   (\<exists>s''. next_tokens 3 \<lparr>cur_chunk = [], chunk_iter = [], char_index = 0,
          error_type = TokenSyntaxError, filename = ''f.vmt'', line_num = 1,
          string_bracket = False\<rparr>
        = Some ([Inr (EOF, None), Inr (EOF, None), Inr (EOF, None)], s'') \<and>
      line_num s'' = 1 \<and> filename s'' = ''f.vmt'')"
proof -
  let ?s = "\<lparr>cur_chunk = ''a //'', chunk_iter = [Str []], char_index = 0 :: c_int,
       error_type = TokenSyntaxError, filename = ''f.vmt'', line_num = 1 :: c_int,
       string_bracket = False\<rparr>"
  let ?s' = "\<lparr>cur_chunk = [], chunk_iter = [], char_index = 0 :: c_int,
          error_type = TokenSyntaxError, filename = ''f.vmt'', line_num = 1 :: c_int,
          string_bracket = False\<rparr>"
  have w: "wf_source ?s" by (simp add: wf_source_def room_def fits_def)
  have e: "next_token ?s = Some (Inr (EOF, None), ?s')"
    by (simp add: next_token.simps skip_comment.simps next_char_def getitem_def unget_def)
  have b: "sint (char_index ?s') + int 3 < 2147483648" by simp
  from EOF_stable [OF w e b] w e show ?thesis by (simp add: numeral_3_eq_3)
qed

text \<open>
  C8: where a token starts (after any blanks) with a slash, the next character must be
  a slash too, or the error \<^verbatim>\<open>Single slash found!\<close> is raised. After \<^verbatim>\<open>//\<close> the text up
  to the next newline or the end of the input gives no token, and the character that
  ends it is read again: the call returns EOF at the end of the input, and the NEWLINE
  token at a newline, which is then counted. In particular the input
  \<^verbatim>\<open>// a comment\<close>, newline, \<^verbatim>\<open>foo\<close> gives NEWLINE, STRING \<^verbatim>\<open>foo\<close>, EOF.
\<close>

theorem comment_skipped:
  assumes "wf_source s" "set ws \<subseteq> {CHR '' '', tab}"
  shows
    "(remaining s = ws @ CHR ''/'' # rest \<and> (rest = [] \<or> hd rest \<noteq> CHR ''/'') \<longrightarrow>
        (\<exists>s'. next_token s =
           Some (Inl (SyntaxErr (error_type s) ''Single slash found!'' (filename s)
                        (sint (line_num s))), s'))) \<and>
     (remaining s = ws @ ''//'' @ body \<and> newline \<notin> set body \<longrightarrow>
        (\<exists>s'. next_token s = Some (Inr (EOF, None), s') \<and> remaining s' = [] \<and>
              line_num s' = line_num s)) \<and>
     (remaining s = ws @ ''//'' @ body' @ newline # rest' \<and> newline \<notin> set body' \<longrightarrow>
        (\<exists>s'. next_token s = Some (Inr (NEWLINE, Some [newline]), s') \<and>
              remaining s' = rest' \<and> line_num s' = line_num s + 1)) \<and>
     map_option fst (next_tokens 3 (projr (Tokenizer_init
            (StrData (''// a comment'' @ [newline] @ ''foo'')) None None False)))
       = Some [Inr (NEWLINE, Some [newline]), Inr (STRING, Some ''foo''), Inr (EOF, None)]"
proof (intro conjI impI)
  from assms(1) have r: "room (Suc 1) s" by (simp add: wf_source_def numeral_2_eq_2)
  {
    assume a: "remaining s = ws @ CHR ''/'' # rest \<and> (rest = [] \<or> hd rest \<noteq> CHR ''/'')"
    then have "lex_token (string_bracket s) (remaining s) (line_num s)
        = (Inl (Configured ''Single slash found!''), line_num s, tl rest)"
      using assms(2) by (cases rest) (auto simp: lex_token_blanks)
    from next_token_lex_Inl [OF r this]
    show "\<exists>s'. next_token s =
           Some (Inl (SyntaxErr (error_type s) ''Single slash found!'' (filename s)
                        (sint (line_num s))), s')" by blast
  }
  {
    assume a: "remaining s = ws @ ''//'' @ body \<and> newline \<notin> set body"
    then have "lex_comment body = []" using lex_comment_body [of body "[]"] by simp
    with a have l: "lex_token (string_bracket s) (remaining s) (line_num s)
        = (Inr (EOF, None), line_num s, [])"
      using assms(2) by (simp add: lex_token_blanks)
    from next_token_lex_Inr [OF r l]
    show "\<exists>s'. next_token s = Some (Inr (EOF, None), s') \<and> remaining s' = [] \<and>
              line_num s' = line_num s" by blast
  }
  {
    assume a: "remaining s = ws @ ''//'' @ body' @ newline # rest' \<and> newline \<notin> set body'"
    then have "lex_comment (body' @ newline # rest') = newline # rest'"
      using lex_comment_body [of body' "newline # rest'"] by simp
    with a have l: "lex_token (string_bracket s) (remaining s) (line_num s)
        = (Inr (NEWLINE, Some [newline]), line_num s + 1, rest')"
      using assms(2) by (simp add: lex_token_blanks)
    from next_token_lex_Inr [OF r l]
    show "\<exists>s'. next_token s = Some (Inr (NEWLINE, Some [newline]), s') \<and>
              remaining s' = rest' \<and> line_num s' = line_num s + 1" by blast
  }
  show "map_option fst (next_tokens 3 (projr (Tokenizer_init
            (StrData (''// a comment'' @ [newline] @ ''foo'')) None None False)))
       = Some [Inr (NEWLINE, Some [newline]), Inr (STRING, Some ''foo''), Inr (EOF, None)]"
    by code_simp
qed

theorem comment_skipped_witness:
  "wf_source (projr (Tokenizer_init (StrData ''/x'') None None False)) \<and>
   remaining (projr (Tokenizer_init (StrData ''/x'') None None False)) = ''/x'' \<and>
   (\<exists>s'. next_token (projr (Tokenizer_init (StrData ''/x'') None None False))
     = Some (Inl (SyntaxErr TokenSyntaxError ''Single slash found!'' [] 1), s')) \<and>
   remaining (projr (Tokenizer_init (StrData '' // c'') None None False)) = '' // c'' \<and>
   (\<exists>s'. next_token (projr (Tokenizer_init (StrData '' // c'') None None False))
     = Some (Inr (EOF, None), s')) \<and>
   remaining (projr (Tokenizer_init (StrData (''//c'' @ [newline] @ ''foo'')) None None False))
     = ''//c'' @ [newline] @ ''foo'' \<and>
   (\<exists>s'. next_token (projr (Tokenizer_init (StrData (''//c'' @ [newline] @ ''foo'')) None None False))
     = Some (Inr (NEWLINE, Some [newline]), s') \<and> remaining s' = ''foo'' \<and> line_num s' = 2)"
proof -
  let ?s1 = "projr (Tokenizer_init (StrData ''/x'') None None False)"
  let ?s2 = "projr (Tokenizer_init (StrData '' // c'') None None False)"
  let ?s3 = "projr (Tokenizer_init (StrData (''//c'' @ [newline] @ ''foo'')) None None False)"
  have w1: "wf_source ?s1" and w2: "wf_source ?s2" and w3: "wf_source ?s3"
    by (simp_all add: Tokenizer_init_def wf_source_def room_def)
  have r1: "remaining ?s1 = [] @ CHR ''/'' # ''x''"
    and r2: "remaining ?s2 = '' '' @ ''//'' @ '' c''"
    and r3: "remaining ?s3 = [] @ ''//'' @ ''c'' @ newline # ''foo''"
    by (simp_all add: Tokenizer_init_def remaining_def)
  have e1: "error_type ?s1 = TokenSyntaxError" "filename ?s1 = []" "line_num ?s1 = 1"
    and e3: "line_num ?s3 = 1"
    by (simp_all add: Tokenizer_init_def)
  have b0: "set [] \<subseteq> {CHR '' '', tab}" and b1: "set '' '' \<subseteq> {CHR '' '', tab}" by simp_all
  from comment_skipped [OF w1 b0, where rest = "''x''"] r1 e1
  have c1: "\<exists>s'. next_token ?s1
      = Some (Inl (SyntaxErr TokenSyntaxError ''Single slash found!'' [] 1), s')"
    by simp
  from comment_skipped [OF w2 b1, where body = "'' c''"] r2
  have "\<exists>s'. next_token ?s2 = Some (Inr (EOF, None), s') \<and> remaining s' = [] \<and>
      line_num s' = line_num ?s2" by simp
  then have c2: "\<exists>s'. next_token ?s2 = Some (Inr (EOF, None), s')" by blast
  from comment_skipped [OF w3 b0, where body' = "''c''" and rest' = "''foo''"] r3 e3
  have c3: "\<exists>s'. next_token ?s3 = Some (Inr (NEWLINE, Some [newline]), s') \<and>
      remaining s' = ''foo'' \<and> line_num s' = 2" by simp
  from w1 r1 r2 r3 c1 c2 c3 show ?thesis by simp
qed

text \<open>
  C9: with \<^verbatim>\<open>string_bracket\<close> set the input \<^verbatim>\<open>[!fizz]\<close> gives PROP_FLAG \<^verbatim>\<open>!fizz\<close> and
  EOF; without it the same input gives BRACK_OPEN, STRING \<^verbatim>\<open>!fizz\<close>, BRACK_CLOSE and
  EOF; and a \<^verbatim>\<open>]\<close> where a token starts gives BRACK_CLOSE whatever the mode is.
\<close>

theorem bracket_tokens:
  "map_option fst (next_tokens 2 (projr (Tokenizer_init (StrData ''[!fizz]'') None None True)))
     = Some [Inr (PROP_FLAG, Some ''!fizz''), Inr (EOF, None)] \<and>
   map_option fst (next_tokens 4 (projr (Tokenizer_init (StrData ''[!fizz]'') None None False)))
     = Some [Inr (BRACK_OPEN, Some ''[''), Inr (STRING, Some ''!fizz''),
        Inr (BRACK_CLOSE, Some '']''), Inr (EOF, None)] \<and>
   (wf_source s \<and> set ws \<subseteq> {CHR '' '', tab} \<and> remaining s = ws @ CHR '']'' # rest \<longrightarrow>
      (\<exists>s'. next_token (s\<lparr>string_bracket := b\<rparr>) = Some (Inr (BRACK_CLOSE, Some '']''), s') \<and>
            remaining s' = rest))"
proof (intro conjI impI)
  show "map_option fst (next_tokens 2 (projr (Tokenizer_init (StrData ''[!fizz]'') None None True)))
     = Some [Inr (PROP_FLAG, Some ''!fizz''), Inr (EOF, None)]" by code_simp
  show "map_option fst (next_tokens 4 (projr (Tokenizer_init (StrData ''[!fizz]'') None None False)))
     = Some [Inr (BRACK_OPEN, Some ''[''), Inr (STRING, Some ''!fizz''),
        Inr (BRACK_CLOSE, Some '']''), Inr (EOF, None)]" by code_simp
next
  assume a: "wf_source s \<and> set ws \<subseteq> {CHR '' '', tab} \<and> remaining s = ws @ CHR '']'' # rest"
  let ?s = "s\<lparr>string_bracket := b\<rparr>"
  from a have w: "room (Suc 1) ?s" by (simp add: wf_source_def numeral_2_eq_2)
  from a have l: "lex_token (string_bracket ?s) (remaining ?s) (line_num ?s)
      = (Inr (BRACK_CLOSE, Some '']''), line_num ?s, rest)"
    by (simp add: lex_token_blanks)
  from next_token_lex_Inr [OF w l]
  show "\<exists>s'. next_token ?s = Some (Inr (BRACK_CLOSE, Some '']''), s') \<and> remaining s' = rest"
    by blast
qed

theorem bracket_tokens_witness:
  "wf_source (projr (Tokenizer_init (StrData '' ]x'') None None False)) \<and>
   remaining (projr (Tokenizer_init (StrData '' ]x'') None None False)) = '' ]x'' \<and>
   (\<exists>s'. next_token ((projr (Tokenizer_init (StrData '' ]x'') None None False))
          \<lparr>string_bracket := True\<rparr>) = Some (Inr (BRACK_CLOSE, Some '']''), s') \<and>
      remaining s' = ''x'') \<and>
   (\<exists>s'. next_token ((projr (Tokenizer_init (StrData '' ]x'') None None False))
          \<lparr>string_bracket := False\<rparr>) = Some (Inr (BRACK_CLOSE, Some '']''), s') \<and>
      remaining s' = ''x'')"
proof -
  let ?s = "projr (Tokenizer_init (StrData '' ]x'') None None False)"
  have w: "wf_source ?s" by (simp add: Tokenizer_init_def wf_source_def room_def)
  have r: "remaining ?s = '' '' @ CHR '']'' # ''x''"
    by (simp add: Tokenizer_init_def remaining_def)
  have b: "set '' '' \<subseteq> {CHR '' '', tab}" by simp
  from bracket_tokens [of ?s "'' ''" "''x''" True] w r b
  have t: "\<exists>s'. next_token (?s\<lparr>string_bracket := True\<rparr>)
      = Some (Inr (BRACK_CLOSE, Some '']''), s') \<and> remaining s' = ''x''"
    by blast
  from bracket_tokens [of ?s "'' ''" "''x''" False] w r b
  have f: "\<exists>s'. next_token (?s\<lparr>string_bracket := False\<rparr>)
      = Some (Inr (BRACK_CLOSE, Some '']''), s') \<and> remaining s' = ''x''"
    by blast
  from w r t f show ?thesis by simp
qed

text \<open>
  C10: the input \<^verbatim>\<open>a=b\<close> is the one token STRING \<^verbatim>\<open>a=b\<close>; an \<^verbatim>\<open>=\<close> or a \<^verbatim>\<open>+\<close> where
  a token starts gives EQUALS or PLUS; and a bare word, once begun, takes every
  character (\<^verbatim>\<open>=\<close> and \<^verbatim>\<open>+\<close> among them) up to the first character of \<open>bare_word_end\<close>
  or the end of the input, and that character is left for the next token.
\<close>

theorem bare_word_chars:
  assumes "wf_source s" "set ws \<subseteq> {CHR '' '', tab}"
  shows
    "map_option fst (next_tokens 2 (projr (Tokenizer_init (StrData ''a=b'') None None False)))
       = Some [Inr (STRING, Some ''a=b''), Inr (EOF, None)] \<and>
     (remaining s = ws @ CHR ''='' # rest \<longrightarrow>
        (\<exists>s'. next_token s = Some (Inr (EQUALS, Some ''=''), s') \<and> remaining s' = rest)) \<and>
     (remaining s = ws @ CHR ''+'' # rest \<longrightarrow>
        (\<exists>s'. next_token s = Some (Inr (PLUS, Some ''+''), s') \<and> remaining s' = rest)) \<and>
     (remaining s = ws @ c # w @ rest' \<and> c \<notin> bare_word_end \<and> c \<notin> {CHR ''='', CHR ''+'', CHR ''/''} \<and>
      set w \<inter> bare_word_end = {} \<and> (rest' = [] \<or> hd rest' \<in> bare_word_end) \<longrightarrow>
        (\<exists>s'. next_token s = Some (Inr (STRING, Some (c # w)), s') \<and>
              remaining s' = rest' \<and> line_num s' = line_num s))"
proof (intro conjI impI)
  show "map_option fst (next_tokens 2 (projr (Tokenizer_init (StrData ''a=b'') None None False)))
       = Some [Inr (STRING, Some ''a=b''), Inr (EOF, None)]" by code_simp
next
  from assms(1) have r: "room (Suc 1) s" by (simp add: wf_source_def numeral_2_eq_2)
  {
    assume a: "remaining s = ws @ CHR ''='' # rest"
    with assms(2) have l: "lex_token (string_bracket s) (remaining s) (line_num s)
        = (Inr (EQUALS, Some ''=''), line_num s, rest)"
      by (simp add: lex_token_blanks)
    from next_token_lex_Inr [OF r l]
    show "\<exists>s'. next_token s = Some (Inr (EQUALS, Some ''=''), s') \<and> remaining s' = rest"
      by blast
  }
  {
    assume a: "remaining s = ws @ CHR ''+'' # rest"
    with assms(2) have l: "lex_token (string_bracket s) (remaining s) (line_num s)
        = (Inr (PLUS, Some ''+''), line_num s, rest)"
      by (simp add: lex_token_blanks)
    from next_token_lex_Inr [OF r l]
    show "\<exists>s'. next_token s = Some (Inr (PLUS, Some ''+''), s') \<and> remaining s' = rest"
      by blast
  }
  {
    assume a: "remaining s = ws @ c # w @ rest' \<and> c \<notin> bare_word_end \<and>
        c \<notin> {CHR ''='', CHR ''+'', CHR ''/''} \<and>
        set w \<inter> bare_word_end = {} \<and> (rest' = [] \<or> hd rest' \<in> bare_word_end)"
    then have w: "\<forall>x\<in>set w. x \<notin> set BARE_DISALLOWED"
      and e: "rest' = [] \<or> hd rest' \<in> set BARE_DISALLOWED"
      and c: "c \<notin> set BARE_DISALLOWED"
      by (auto simp: set_BARE_DISALLOWED)
    from a have c': "c \<noteq> CHR ''{''" "c \<noteq> CHR ''}''" "c \<noteq> CHR '':''" "c \<noteq> CHR ''+''"
      "c \<noteq> CHR ''=''" "c \<noteq> CHR '']''" "c \<noteq> newline" "c \<noteq> CHR '' ''" "c \<noteq> tab"
      "c \<noteq> CHR ''/''" "c \<noteq> dquote" "c \<noteq> CHR ''[''" "c \<noteq> CHR ''(''"
      by (auto simp: bare_word_end_def)
    have "lex_token (string_bracket s) (c # w @ rest') (line_num s)
        = lex_bare (w @ rest') [c] (line_num s)"
      using c c' by simp
    also have "\<dots> = (Inr (STRING, Some ([c] @ w)), line_num s, rest')"
      using w e by (rule lex_bare_word)
    finally have l: "lex_token (string_bracket s) (remaining s) (line_num s)
        = (Inr (STRING, Some (c # w)), line_num s, rest')"
      using a assms(2) by (simp add: lex_token_blanks)
    from next_token_lex_Inr [OF r l]
    show "\<exists>s'. next_token s = Some (Inr (STRING, Some (c # w)), s') \<and>
              remaining s' = rest' \<and> line_num s' = line_num s" by blast
  }
qed

theorem bare_word_chars_witness:
  "wf_source (projr (Tokenizer_init (StrData ''a=+b c'') None None False)) \<and>
   remaining (projr (Tokenizer_init (StrData ''a=+b c'') None None False)) = ''a=+b c'' \<and>
   (\<exists>s'. next_token (projr (Tokenizer_init (StrData ''a=+b c'') None None False))
     = Some (Inr (STRING, Some ''a=+b''), s') \<and> remaining s' = '' c'') \<and>
   (\<exists>s'. next_token (projr (Tokenizer_init (StrData '' =a'') None None False))
     = Some (Inr (EQUALS, Some ''=''), s') \<and> remaining s' = ''a'') \<and>
   (\<exists>s'. next_token (projr (Tokenizer_init (StrData ''+a'') None None False))
     = Some (Inr (PLUS, Some ''+''), s') \<and> remaining s' = ''a'')"
proof -
  let ?s = "projr (Tokenizer_init (StrData ''a=+b c'') None None False)"
  let ?e = "projr (Tokenizer_init (StrData '' =a'') None None False)"
  let ?p = "projr (Tokenizer_init (StrData ''+a'') None None False)"
  have w: "wf_source ?s" "wf_source ?e" "wf_source ?p"
    by (simp_all add: Tokenizer_init_def wf_source_def room_def)
  have r: "remaining ?s = [] @ CHR ''a'' # ''=+b'' @ '' c''"
    and re: "remaining ?e = '' '' @ CHR ''='' # ''a''"
    and rp: "remaining ?p = [] @ CHR ''+'' # ''a''"
    by (simp_all add: Tokenizer_init_def remaining_def)
  have b0: "set [] \<subseteq> {CHR '' '', tab}" and b1: "set '' '' \<subseteq> {CHR '' '', tab}" by simp_all
  have side: "CHR ''a'' \<notin> bare_word_end \<and> CHR ''a'' \<notin> {CHR ''='', CHR ''+'', CHR ''/''} \<and>
      set ''=+b'' \<inter> bare_word_end = {} \<and> ('' c'' = [] \<or> hd '' c'' \<in> bare_word_end)"
    by (simp add: bare_word_end_def)
  from bare_word_chars [OF w(1) b0, where c = "CHR ''a''" and w = "''=+b''" and rest' = "'' c''"]
    r side
  have c1: "\<exists>s'. next_token ?s = Some (Inr (STRING, Some ''a=+b''), s') \<and> remaining s' = '' c''"
    by blast
  from bare_word_chars [OF w(2) b1, where rest = "''a''"] re
  have c2: "\<exists>s'. next_token ?e = Some (Inr (EQUALS, Some ''=''), s') \<and> remaining s' = ''a''"
    by blast
  from bare_word_chars [OF w(3) b0, where rest = "''a''"] rp
  have c3: "\<exists>s'. next_token ?p = Some (Inr (PLUS, Some ''+''), s') \<and> remaining s' = ''a''"
    by blast
  from w r c1 c2 c3 show ?thesis by simp
qed

text \<open>
  C3: a quoted string whose body is \<open>body\<close> gives the token STRING with the decoded
  text \<open>spec_decode body\<close>: backslash and \<^verbatim>\<open>n\<close> give a newline, backslash and \<^verbatim>\<open>t\<close> a
  tab, backslash and a newline nothing (and that newline is not counted), backslash and
  a double quote, a backslash or a slash that character, and backslash and any other
  character both of them. The token is returned at the closing quote, and the line
  number has grown by the newlines of the body that no escape swallowed.
\<close>

theorem quoted_string_decoding:
  assumes "wf_source s" "set ws \<subseteq> {CHR '' '', tab}"
    and "remaining s = ws @ dquote # body @ dquote # rest" "spec_string_body body"
  shows "\<exists>s'. next_token s = Some (Inr (STRING, Some (spec_decode body)), s') \<and>
           remaining s' = rest \<and>
           line_num s' = line_num s + of_nat (spec_body_lines body)"
proof -
  from assms(1) have r: "room (Suc 1) s" by (simp add: wf_source_def numeral_2_eq_2)
  from assms(2,3) lex_quoted_body [OF assms(4), of rest "[]" "line_num s"]
  have l: "lex_token (string_bracket s) (remaining s) (line_num s)
      = (Inr (STRING, Some (spec_decode body)), line_num s + of_nat (spec_body_lines body), rest)"
    by (simp add: lex_token_blanks)
  from next_token_lex_Inr [OF r l] show ?thesis by blast
qed

theorem quoted_string_decoding_witness:
  "wf_source (projr (Tokenizer_init (StrData
      [dquote, CHR ''x'', backslash, CHR ''n'', backslash, CHR ''t'', backslash, newline,
       backslash, dquote, backslash, backslash, backslash, CHR ''/'', backslash, CHR ''q'',
       newline, CHR ''y'', dquote]) None None False)) \<and>
   spec_string_body
      [CHR ''x'', backslash, CHR ''n'', backslash, CHR ''t'', backslash, newline,
       backslash, dquote, backslash, backslash, backslash, CHR ''/'', backslash, CHR ''q'',
       newline, CHR ''y''] \<and>
   (\<exists>s'. next_token (projr (Tokenizer_init (StrData
      [dquote, CHR ''x'', backslash, CHR ''n'', backslash, CHR ''t'', backslash, newline,
       backslash, dquote, backslash, backslash, backslash, CHR ''/'', backslash, CHR ''q'',
       newline, CHR ''y'', dquote]) None None False))
     = Some (Inr (STRING, Some [CHR ''x'', newline, tab, dquote, backslash, CHR ''/'', backslash,
                          CHR ''q'', newline, CHR ''y'']), s') \<and>
     remaining s' = [] \<and> line_num s' = 2)"
proof -
  let ?body = "[CHR ''x'', backslash, CHR ''n'', backslash, CHR ''t'', backslash, newline,
       backslash, dquote, backslash, backslash, backslash, CHR ''/'', backslash, CHR ''q'',
       newline, CHR ''y'']"
  let ?s = "projr (Tokenizer_init (StrData (dquote # ?body @ [dquote])) None None False)"
  have w: "wf_source ?s" by (simp add: Tokenizer_init_def wf_source_def room_def)
  have b: "set [] \<subseteq> {CHR '' '', tab}" by simp
  have r: "remaining ?s = [] @ dquote # ?body @ dquote # []"
    by (simp add: Tokenizer_init_def remaining_def)
  have sb: "spec_string_body ?body" by (simp add: spec_escape_def)
  have l: "line_num ?s = 1" by (simp add: Tokenizer_init_def)
  from quoted_string_decoding [OF w b r sb] l
  have "\<exists>s'. next_token ?s = Some (Inr (STRING, Some [CHR ''x'', newline, tab, dquote, backslash,
          CHR ''/'', backslash, CHR ''q'', newline, CHR ''y'']), s') \<and>
        remaining s' = [] \<and> line_num s' = 2"
    by (simp add: spec_escape_def)
  with w sb show ?thesis by simp
qed

text \<open>
  C2, as stated: the line counter grows by one for every newline consumed, in every
  lexical context. It does not. In the string \<^verbatim>\<open>"a\<close>, backslash, newline, \<^verbatim>\<open>b"\<close> the
  newline that follows the backslash is consumed, and the line number stays at 1; in
  bracket-as-flag mode the input \<^verbatim>\<open>[a\<close>, newline raises \<^verbatim>\<open>Unexpected token NEWLINE!\<close>
  with the line number still 1, the newline consumed; and the counter is a public C
  \<^verbatim>\<open>int\<close>: at 2147483647 a newline takes it to -2147483648.
\<close>

theorem line_continuation_counterexample:
  "count_list (remaining (projr (Tokenizer_init
       (StrData [dquote, CHR ''a'', backslash, newline, CHR ''b'', dquote]) None None False)))
     newline = 1 \<and>
   map_option (\<lambda>(r, s). (r, remaining s, sint (line_num s))) (next_token (projr (Tokenizer_init
       (StrData [dquote, CHR ''a'', backslash, newline, CHR ''b'', dquote]) None None False)))
     = Some (Inr (STRING, Some ''ab''), [], 1) \<and>
   map_option (\<lambda>(r, s). (r, remaining s, sint (line_num s))) (next_token (projr (Tokenizer_init
       (StrData [CHR ''['', CHR ''a'', newline]) None None True)))
     = Some (Inl (SyntaxErr TokenSyntaxError ''Unexpected token NEWLINE!'' [] 1), [], 1) \<and>
   map_option (\<lambda>(r, s). (r, remaining s, sint (line_num s)))
     (next_token ((projr (Tokenizer_init (StrData [newline]) None None False))
                    \<lparr>line_num := 2147483647\<rparr>))
     = Some (Inr (NEWLINE, Some [newline]), [], - 2147483648)"
  by code_simp

text \<open>
  C2, amended: a call of \<^verbatim>\<open>next_token\<close> on a well-formed tokenizer returns or raises,
  and it adds to the line counter (a C \<^verbatim>\<open>int\<close>, so that the sum wraps around)
  the number of newlines in the text it consumed, whatever the context is, with these
  exceptions: inside a quoted string a newline directly behind an escaping backslash is
  not counted (\<open>counted_newlines\<close>), and when the call raises
  \<^verbatim>\<open>Unexpected token NEWLINE!\<close> (a newline inside a property flag) or
  \<^verbatim>\<open>Single slash found!\<close> the counter is left as it was. While text is left the
  tokenizer stays well formed, so that this holds for the next call too. A newline that
  the escape backslash-\<^verbatim>\<open>n\<close> decodes to is not a newline consumed: the string
  \<^verbatim>\<open>"a\nb"\<close> is decoded to three characters and leaves the line number at 1.
\<close>

theorem line_counting:
  assumes "wf_source s"
  shows "(\<exists>r s' consumed. next_token s = Some (r, s') \<and>
            remaining s = consumed @ remaining s' \<and>
            line_num s' =
              line_num s + (if uncounted r then 0 else of_nat (counted_newlines consumed)) \<and>
            (remaining s' \<noteq> [] \<longrightarrow> wf_source s')) \<and>
         map_option (\<lambda>(r, s). (r, sint (line_num s))) (next_token (projr (Tokenizer_init
             (StrData [dquote, CHR ''a'', backslash, CHR ''n'', CHR ''b'', dquote]) None None False)))
           = Some (Inr (STRING, Some [CHR ''a'', newline, CHR ''b'']), 1) \<and>
         counted_newlines [dquote, CHR ''a'', backslash, CHR ''n'', CHR ''b'', dquote] = 0"
proof (intro conjI)
  obtain a n rest where l: "lex_token (string_bracket s) (remaining s) (line_num s) = (a, n, rest)"
    by (cases "lex_token (string_bracket s) (remaining s) (line_num s)")
  from assms have "room (Suc 1) s" by (simp add: wf_source_def numeral_2_eq_2)
  from next_token_lexD [OF this l] obtain s' where
    s': "next_token s = Some (raised s' a, s')" "line_num s' = n"
    "remaining s' = rest" "rest \<noteq> [] \<longrightarrow> room (Suc (Suc 0)) s'" by auto
  from lex_token_lines [OF l] obtain k where
    k: "remaining s = k @ rest"
    "n = line_num s + (if lex_uncounted a then 0 else of_nat (counted_newlines k))" by blast
  have "uncounted (raised s' a) = lex_uncounted a"
  proof (cases a)
    case (Inl x)
    show ?thesis
    proof (cases x)
      case (Configured m)
      with Inl show ?thesis by simp
    next
      case (Builtin e)
      with Inl l have "e = chr_out_of_range" by (auto dest: lex_token_Builtin)
      with Inl Builtin show ?thesis by simp
    qed
  next
    case (Inr tok)
    then show ?thesis by simp
  qed
  with s' k show "\<exists>r s' consumed. next_token s = Some (r, s') \<and>
            remaining s = consumed @ remaining s' \<and>
            line_num s' =
              line_num s + (if uncounted r then 0 else of_nat (counted_newlines consumed)) \<and>
            (remaining s' \<noteq> [] \<longrightarrow> wf_source s')"
    by (intro exI [of _ "raised s' a"] exI [of _ s'] exI [of _ k])
       (simp add: wf_source_def numeral_2_eq_2)
next
  show "map_option (\<lambda>(r, s). (r, sint (line_num s))) (next_token (projr (Tokenizer_init
             (StrData [dquote, CHR ''a'', backslash, CHR ''n'', CHR ''b'', dquote]) None None False)))
           = Some (Inr (STRING, Some [CHR ''a'', newline, CHR ''b'']), 1)" by code_simp
  show "counted_newlines [dquote, CHR ''a'', backslash, CHR ''n'', CHR ''b'', dquote] = 0"
    by (simp add: counted_newlines_def)
qed

theorem line_counting_witness:
  "wf_source (projr (Tokenizer_init
      (StrData [CHR ''('', CHR ''a'', newline, CHR ''b'', newline, CHR '')'']) None None False)) \<and>
   (\<exists>s'. next_token (projr (Tokenizer_init
      (StrData [CHR ''('', CHR ''a'', newline, CHR ''b'', newline, CHR '')'']) None None False))
     = Some (Inr (PAREN_ARGS, Some [CHR ''a'', newline, CHR ''b'', newline]), s') \<and>
     remaining s' = [] \<and> line_num s' = 3) \<and>
   wf_source (projr (Tokenizer_init
      (StrData [dquote, CHR ''a'', backslash, newline, newline]) None None False)) \<and>
   (\<exists>s'. next_token (projr (Tokenizer_init
      (StrData [dquote, CHR ''a'', backslash, newline, newline]) None None False))
     = Some (Inl (ValueError ''chr() arg not in range(0x110000)''), s') \<and>
     remaining s' = [] \<and> line_num s' = 2)"
proof -
  let ?t = "[CHR ''('', CHR ''a'', newline, CHR ''b'', newline, CHR '')'']"
  let ?s = "projr (Tokenizer_init (StrData ?t) None None False)"
  let ?u = "[dquote, CHR ''a'', backslash, newline, newline]"
  let ?r = "projr (Tokenizer_init (StrData ?u) None None False)"
  let ?tok = "Inr (PAREN_ARGS, Some [CHR ''a'', newline, CHR ''b'', newline])"
  let ?err = "Inl (ValueError ''chr() arg not in range(0x110000)'')"
  have w: "wf_source ?s" and w': "wf_source ?r"
    by (simp_all add: Tokenizer_init_def wf_source_def room_def)
  have e: "map_option (\<lambda>(r, s). (r, remaining s)) (next_token ?s) = Some (?tok, [])"
    by code_simp
  have e': "map_option (\<lambda>(r, s). (r, remaining s)) (next_token ?r) = Some (?err, [])"
    by code_simp
  have r: "remaining ?s = ?t" and r2: "remaining ?r = ?u"
    by (simp_all add: Tokenizer_init_def remaining_def)
  have l: "line_num ?s = 1" "line_num ?r = 1" by (simp_all add: Tokenizer_init_def)
  have c: "counted_newlines ?t = 2" "counted_newlines ?u = 1"
    by (simp_all add: counted_newlines_def)
  have u: "\<not> uncounted ?tok" "\<not> uncounted ?err" by (simp_all add: uncounted_def)
  from line_counting [OF w] obtain x s' k where
    h: "next_token ?s = Some (x, s')" "remaining ?s = k @ remaining s'"
    "line_num s' = line_num ?s + (if uncounted x then 0 else of_nat (counted_newlines k))"
    by blast
  from h(1) e have x: "x = ?tok" "remaining s' = []" by auto
  with h(2) r have "k = ?t" by simp
  with h(3) x(1) u(1) l(1) c(1) have "line_num s' = 3" by simp
  with h(1) x have a: "\<exists>s'. next_token ?s = Some (?tok, s') \<and> remaining s' = [] \<and>
      line_num s' = 3" by blast
  from line_counting [OF w'] obtain y t' k' where
    h': "next_token ?r = Some (y, t')" "remaining ?r = k' @ remaining t'"
    "line_num t' = line_num ?r + (if uncounted y then 0 else of_nat (counted_newlines k'))"
    by blast
  from h'(1) e' have y: "y = ?err" "remaining t' = []" by auto
  with h'(2) r2 have "k' = ?u" by simp
  with h'(3) y(1) u(2) l(2) c(2) have "line_num t' = 2" by simp
  with h'(1) y have b: "\<exists>s'. next_token ?r = Some (?err, s') \<and> remaining s' = [] \<and>
      line_num s' = 2" by blast
  from w w' a b show ?thesis by simp
qed




end
